theory Spec2Isabelle
  imports Complex_Main "HOL-Library.AList" "HOL-Library.Sublist"
begin

section \<open>Python values used by the statistics scripts\<close>

text \<open>
  Python floats are modelled by the real numbers they denote (NaN and the infinities are
  outside the model). A Python \<^verbatim>\<open>dict\<close> is an association list in insertion order:
  \<^verbatim>\<open>d[k] = v\<close> is \<^const>\<open>AList.update\<close>, which overwrites the value of a key that is
  present (keeping its position) and appends a new key at the end.
\<close>

text \<open>\<^verbatim>\<open>int(x)\<close> on a float: truncation toward zero.\<close>

definition py_int :: "real \<Rightarrow> int" where
  "py_int x = (if x < 0 then \<lceil>x\<rceil> else \<lfloor>x\<rfloor>)"

type_synonym stage_dict = "(int \<times> (int \<times> int)) list"

section \<open>find\_stage\_transitions\<close>

text \<open>
  The loop state of \<^verbatim>\<open>find_stage_transitions\<close>: the dictionary built so far and the two
  local variables \<^verbatim>\<open>current_stage\<close> and \<^verbatim>\<open>stage_start\<close>.
\<close>

record scan_state =
  stage_ranges :: stage_dict
  current_stage :: int
  stage_start :: int

text \<open>
  One iteration of
  \<^verbatim>\<open>for i, (step, stage_val) in enumerate(zip(stage_steps, stage_values))\<close>.
\<close>

definition scan_step :: "int list \<Rightarrow> scan_state \<Rightarrow> nat \<times> int \<times> real \<Rightarrow> scan_state" where
  "scan_step stage_steps st x =
     (case x of (i, step, stage_val) \<Rightarrow>
        let stage_num = py_int stage_val in
        if stage_num \<noteq> current_stage st then
          \<lparr> stage_ranges =
              AList.update (current_stage st)
                (stage_start st, if i > 0 then stage_steps ! (i - 1) else step)
                (stage_ranges st),
            current_stage = stage_num,
            stage_start = step \<rparr>
        else st)"

text \<open>The state before the loop (both lists are non-empty when it is built).\<close>

definition scan_init :: "int list \<Rightarrow> real list \<Rightarrow> scan_state" where
  "scan_init stage_steps stage_values =
     \<lparr> stage_ranges = [],
       current_stage = py_int (hd stage_values),
       stage_start = hd stage_steps \<rparr>"

definition find_stage_transitions :: "int list \<Rightarrow> real list \<Rightarrow> stage_dict" where
  "find_stage_transitions stage_steps stage_values =
     (if stage_steps = [] \<or> stage_values = [] then []
      else
        let st = foldl (scan_step stage_steps) (scan_init stage_steps stage_values)
                   (enumerate 0 (zip stage_steps stage_values))
        in AList.update (current_stage st) (stage_start st, last stage_steps) (stage_ranges st))"

text \<open>
  The loop state at the start of iteration \<open>i\<close>: the first \<open>i\<close> iterations have run.
\<close>

definition scan_prefix :: "int list \<Rightarrow> real list \<Rightarrow> nat \<Rightarrow> scan_state" where
  "scan_prefix stage_steps stage_values i =
     foldl (scan_step stage_steps) (scan_init stage_steps stage_values)
       (take i (enumerate 0 (zip stage_steps stage_values)))"

section \<open>Runs of one stage id\<close>

text \<open>
  The stage signal with each value truncated as the scan truncates it: the pairs
  \<open>(step, int(value))\<close>.
\<close>

definition truncated :: "int list \<Rightarrow> real list \<Rightarrow> (int \<times> int) list" where
  "truncated ss vs = zip ss (map py_int vs)"

text \<open>
  The maximal runs of equal stage id, in order, reading the pairs left to right: the run
  that is open (\<open>cur\<close>, started at \<open>start\<close>, last seen at \<open>prev\<close>) is closed at \<open>prev\<close>
  when the id changes. This is the list of intervals the scan assigns, before they are
  stored in the dictionary.
\<close>

fun segs_from :: "int \<Rightarrow> int \<Rightarrow> int \<Rightarrow> (int \<times> int) list \<Rightarrow> stage_dict" where
  "segs_from cur start prev [] = [(cur, (start, prev))]"
| "segs_from cur start prev ((s, k) # ps) =
     (if k = cur then segs_from cur start s ps
      else (cur, (start, prev)) # segs_from k s s ps)"

text \<open>Storing one interval: \<^verbatim>\<open>stage_ranges[k] = (a, b)\<close>.\<close>

definition put :: "stage_dict \<Rightarrow> int \<times> (int \<times> int) \<Rightarrow> stage_dict" where
  "put d x = AList.update (fst x) (snd x) d"

text \<open>
  Two samples in input order: the later one has a larger step, or the same step and the
  same stage id. A signal all of whose pairs satisfy this has non-decreasing steps, and
  samples logged at one step agree on the stage.
\<close>

definition same_step_same_stage :: "int \<times> int \<Rightarrow> int \<times> int \<Rightarrow> bool" where
  "same_step_same_stage x y = (fst x < fst y \<or> (fst x = fst y \<and> snd x = snd y))"

definition steps_respect_stages :: "int list \<Rightarrow> real list \<Rightarrow> bool" where
  "steps_respect_stages ss vs = sorted_wrt same_step_same_stage (zip ss (map py_int vs))"

text \<open>The same condition, with the stage id of a sample taken as its rounded value.\<close>

definition steps_respect_rounded_stages :: "int list \<Rightarrow> real list \<Rightarrow> bool" where
  "steps_respect_rounded_stages ss vs = sorted_wrt same_step_same_stage (zip ss (map round vs))"

text \<open>An interval lies wholly before another; a step lies in an interval (bounds inclusive).\<close>

definition seg_before :: "int \<times> (int \<times> int) \<Rightarrow> int \<times> (int \<times> int) \<Rightarrow> bool" where
  "seg_before x y = (snd (snd x) < fst (snd y))"

definition in_seg :: "int \<Rightarrow> int \<times> (int \<times> int) \<Rightarrow> bool" where
  "in_seg s x = (fst (snd x) \<le> s \<and> s \<le> snd (snd x))"

section \<open>exp\_smooth (export\_tensorboard\_pngs\_improved.py)\<close>

text \<open>
  The exporter writes every CSV file, the stage signal included, after exponential
  smoothing with the factor \<^verbatim>\<open>--smoothing\<close> (0.9 by default): the first value is kept, and
  each later one is \<^verbatim>\<open>alpha * last + (1.0 - alpha) * v\<close>.
\<close>

fun exp_smooth_loop :: "real \<Rightarrow> real \<Rightarrow> real list \<Rightarrow> real list" where
  "exp_smooth_loop alpha last_val [] = []"
| "exp_smooth_loop alpha last_val (v # vs) =
     (let last_val = alpha * last_val + (1 - alpha) * v
      in last_val # exp_smooth_loop alpha last_val vs)"

definition exp_smooth :: "real list \<Rightarrow> real \<Rightarrow> real list" where
  "exp_smooth vals alpha =
     (if vals = [] \<or> alpha \<le> 0 then vals
      else hd vals # exp_smooth_loop alpha (hd vals) (tl vals))"

section \<open>NumPy and Python library functions\<close>

text \<open>
  The library functions the scripts call, over the reals. \<^verbatim>\<open>np.mean\<close>, \<^verbatim>\<open>np.std\<close>
  (the population standard deviation), \<^verbatim>\<open>np.min\<close> and \<^verbatim>\<open>np.max\<close> are only ever called
  on non-empty lists.
\<close>

datatype py_error = ValueError | IndexError | KeyError | NotANumber

definition np_mean :: "real list \<Rightarrow> real" where
  "np_mean xs = sum_list xs / real (length xs)"

definition np_std :: "real list \<Rightarrow> real" where
  "np_std xs = sqrt (np_mean (map (\<lambda>x. (x - np_mean xs)\<^sup>2) xs))"

definition np_min :: "real list \<Rightarrow> real" where
  "np_min xs = Min (set xs)"

definition np_max :: "real list \<Rightarrow> real" where
  "np_max xs = Max (set xs)"

text \<open>
  \<^verbatim>\<open>np.percentile(a, q)\<close> with the default linear interpolation: a percentage outside
  \<open>[0, 100]\<close> raises \<^verbatim>\<open>ValueError\<close>; an empty array has no percentile (NumPy raises or
  yields nan, depending on its version; the model has no nan and counts it a failure).
\<close>

definition np_percentile :: "real list \<Rightarrow> real \<Rightarrow> py_error + real" where
  "np_percentile a q =
     (if q < 0 \<or> 100 < q then Inl ValueError
      else if a = [] then Inl NotANumber
      else
        let srt = sort a;
            n = length a;
            virtual_index = q / 100 * real (n - 1);
            j = nat \<lfloor>virtual_index\<rfloor>;
            gamma = virtual_index - real j
        in Inr (if j + 1 < n then srt ! j + gamma * (srt ! (j + 1) - srt ! j) else srt ! j))"

text \<open>\<^verbatim>\<open>xs[i:]\<close>: a negative start counts from the end, and a start out of range is clamped.\<close>

definition py_slice_from :: "'a list \<Rightarrow> int \<Rightarrow> 'a list" where
  "py_slice_from xs i = (if i < 0 then drop (nat (int (length xs) + i)) xs else drop (nat i) xs)"

text \<open>
  The process-wide generator behind \<^verbatim>\<open>np.random\<close>: an infinite sequence of raw draws and
  the number of draws consumed so far. Nothing is assumed about the sequence.
  \<^verbatim>\<open>np.random.choice(data, size=len(data), replace=True)\<close> takes one draw per element of
  the sample, reduced to an index of \<open>data\<close>, and advances the generator.
\<close>

record rng =
  draws :: "nat \<Rightarrow> nat"
  pos :: nat

definition np_random_choice :: "rng \<Rightarrow> real list \<Rightarrow> real list \<times> rng" where
  "np_random_choice g data =
     (map (\<lambda>k. data ! (draws g (pos g + k) mod length data)) [0..<length data],
      g\<lparr>pos := pos g + length data\<rparr>)"

section \<open>bootstrap\_ci\<close>

text \<open>
  The loop \<^verbatim>\<open>for _ in range(n_bootstrap)\<close>: each round resamples the data and appends
  the mean of the sample to \<^verbatim>\<open>bootstrap_means\<close>.
\<close>

fun bootstrap_loop :: "nat \<Rightarrow> real list \<Rightarrow> rng \<Rightarrow> real list \<Rightarrow> real list \<times> rng" where
  "bootstrap_loop 0 data g bootstrap_means = (bootstrap_means, g)"
| "bootstrap_loop (Suc n) data g bootstrap_means =
     (case np_random_choice g data of
        (sample, g') \<Rightarrow> bootstrap_loop n data g' (bootstrap_means @ [np_mean sample]))"

text \<open>
  \<^verbatim>\<open>bootstrap_ci(data, n_bootstrap, confidence)\<close>; the function is defined with the same
  text in both scripts. It has no parameter for the random source: it reads the
  process-wide generator, which the model passes in and returns.
\<close>

definition bootstrap_ci ::
  "rng \<Rightarrow> real list \<Rightarrow> int \<Rightarrow> real \<Rightarrow> (py_error + real \<times> real) \<times> rng" where
  "bootstrap_ci g data n_bootstrap confidence =
     (if length data < 2 then (Inr (0, 0), g)
      else
        case bootstrap_loop (nat n_bootstrap) data g [] of
          (bootstrap_means, g') \<Rightarrow>
            let alpha = 1 - confidence in
            case np_percentile bootstrap_means (100 * alpha / 2) of
              Inl e \<Rightarrow> (Inl e, g')
            | Inr lower \<Rightarrow>
                (case np_percentile bootstrap_means (100 * (1 - alpha / 2)) of
                   Inl e \<Rightarrow> (Inl e, g')
                 | Inr upper \<Rightarrow> (Inr (lower, upper), g')))"

section \<open>get\_stage\_performance\<close>

record stage_perf =
  perf_mean :: real
  perf_std :: real
  perf_min :: real
  perf_max :: real
  n_steps :: nat
  step_range :: "int \<times> int"

type_synonym perf_dict = "(int \<times> stage_perf) list"

text \<open>The values of the samples whose step lies in \<open>[start_step, end_step]\<close>, in order.\<close>

definition in_stage_values :: "int list \<Rightarrow> real list \<Rightarrow> int \<Rightarrow> int \<Rightarrow> real list" where
  "in_stage_values steps vals start_step end_step =
     map snd (filter (\<lambda>(step, v). start_step \<le> step \<and> step \<le> end_step) (zip steps vals))"

text \<open>
  The trailing window: \<^verbatim>\<open>stage_values[-stage_window:]\<close> when there are more than
  \<^verbatim>\<open>stage_window\<close> values, all of them otherwise.
\<close>

definition final_window :: "real list \<Rightarrow> int \<Rightarrow> real list" where
  "final_window stage_values stage_window =
     (if int (length stage_values) > stage_window
      then py_slice_from stage_values (- stage_window)
      else stage_values)"

text \<open>One iteration of \<^verbatim>\<open>for stage_num, (start_step, end_step) in stage_ranges.items()\<close>.\<close>

definition perf_step ::
  "int list \<Rightarrow> real list \<Rightarrow> int \<Rightarrow> perf_dict \<Rightarrow> int \<times> (int \<times> int) \<Rightarrow> perf_dict" where
  "perf_step steps vals stage_window stage_performance item =
     (case item of (stage_num, (start_step, end_step)) \<Rightarrow>
        let stage_values = in_stage_values steps vals start_step end_step in
        if stage_values = [] then stage_performance
        else
          let final_values = final_window stage_values stage_window in
          if final_values \<noteq> [] then
            AList.update stage_num
              \<lparr> perf_mean = np_mean final_values,
                perf_std = np_std final_values,
                perf_min = np_min final_values,
                perf_max = np_max final_values,
                n_steps = length stage_values,
                step_range = (start_step, end_step) \<rparr>
              stage_performance
          else stage_performance)"

definition get_stage_performance ::
  "int list \<Rightarrow> real list \<Rightarrow> stage_dict \<Rightarrow> int \<Rightarrow> perf_dict" where
  "get_stage_performance steps vals ranges stage_window =
     foldl (perf_step steps vals stage_window) [] ranges"

text \<open>
  What one iteration stores for an interval, if anything: nothing for an interval with no
  sample, or whose trailing window is empty.
\<close>

definition stage_entry :: "int list \<Rightarrow> real list \<Rightarrow> int \<Rightarrow> int \<times> int \<Rightarrow> stage_perf option" where
  "stage_entry steps vals stage_window r =
     (let stage_values = in_stage_values steps vals (fst r) (snd r);
          final_values = final_window stage_values stage_window
      in if stage_values = [] \<or> final_values = [] then None
         else Some \<lparr> perf_mean = np_mean final_values,
                     perf_std = np_std final_values,
                     perf_min = np_min final_values,
                     perf_max = np_max final_values,
                     n_steps = length stage_values,
                     step_range = r \<rparr>)"

section \<open>Run directories and the metric table\<close>

text \<open>
  A run directory is the list of its CSV files, by file name, each with what
  \<^verbatim>\<open>load_csv_data\<close> returns for it: the \<^verbatim>\<open>step\<close> and \<^verbatim>\<open>value\<close> columns, or two empty
  lists when the file cannot be read. The file system maps a path to the directory
  there, if one exists.
\<close>

type_synonym series = "int list \<times> real list"
type_synonym directory = "(string \<times> series) list"
type_synonym filesystem = "string \<Rightarrow> directory option"

text \<open>\<^verbatim>\<open>os.path.exists(os.path.join(run_dir, name))\<close>.\<close>

definition csv_exists :: "filesystem \<Rightarrow> string \<Rightarrow> string \<Rightarrow> bool" where
  "csv_exists fs run_dir name =
     (case fs run_dir of None \<Rightarrow> False | Some files \<Rightarrow> map_of files name \<noteq> None)"

text \<open>
  \<^verbatim>\<open>load_csv_data(os.path.join(run_dir, name))\<close>: a file that is missing raises inside
  the \<^verbatim>\<open>try\<close>, and the handler returns two empty lists.
\<close>

definition load_csv_data :: "filesystem \<Rightarrow> string \<Rightarrow> string \<Rightarrow> series" where
  "load_csv_data fs run_dir name =
     (case fs run_dir of
        None \<Rightarrow> ([], [])
      | Some files \<Rightarrow> (case map_of files name of None \<Rightarrow> ([], []) | Some s \<Rightarrow> s))"

text \<open>The metric table of both scripts: file key, display name, format kind.\<close>

definition metrics :: "(string \<times> string \<times> string) list" where
  "metrics =
     [(''Drone__Success'', ''Success Rate'', ''percentage''),
      (''Drone__Collisions'', ''Collision Rate'', ''percentage''),
      (''Environment__Cumulative_Reward'', ''Cumulative Reward'', ''float''),
      (''Drone__EpisodeLength'', ''Episode Length'', ''float''),
      (''Drone__MinDistance'', ''Min Distance to Goal'', ''float'')]"

section \<open>Result dictionaries\<close>

text \<open>
  The value stored under a metric name is a Python dictionary in both modes: keyed by
  stage number in the stage-aware mode, and the flat record with the six keys
  \<^verbatim>\<open>mean, std, ci_lower, ci_upper, format, n_runs\<close> in the final-window mode.
\<close>

record stage_result =
  res_mean :: real
  res_std :: real
  res_ci_lower :: real
  res_ci_upper :: real
  res_format :: string
  res_n_runs :: nat
  res_step_range :: "int \<times> int"

record final_result =
  fin_mean :: real
  fin_std :: real
  fin_ci_lower :: real
  fin_ci_upper :: real
  fin_format :: string
  fin_n_runs :: nat

datatype metric_data = Staged "(int \<times> stage_result) list" | Flat final_result

type_synonym results = "(string \<times> metric_data) list"

fun isinstance_dict :: "metric_data \<Rightarrow> bool" where
  "isinstance_dict (Staged d) = True"
| "isinstance_dict (Flat r) = True"

fun py_len :: "metric_data \<Rightarrow> nat" where
  "py_len (Staged d) = length d"
| "py_len (Flat r) = 6"

section \<open>analyze\_final\_performance\_only\<close>

text \<open>One run of the inner loop: the run's trailing values are appended.\<close>

definition extend_final_values ::
  "filesystem \<Rightarrow> string \<Rightarrow> int \<Rightarrow> real list \<Rightarrow> string \<Rightarrow> real list" where
  "extend_final_values fs metric_key final_win all_final_values run_dir =
     (if csv_exists fs run_dir (metric_key @ ''.csv'') then
        (case load_csv_data fs run_dir (metric_key @ ''.csv'') of
           (steps, vals) \<Rightarrow>
             if vals \<noteq> [] then
               all_final_values @
                 (if int (length vals) \<ge> final_win then py_slice_from vals (- final_win)
                  else vals)
             else all_final_values)
      else all_final_values)"

text \<open>The loop over the metric table; an exception ends it.\<close>

fun final_metrics ::
  "filesystem \<Rightarrow> string list \<Rightarrow> int \<Rightarrow> (string \<times> string \<times> string) list \<Rightarrow> results \<Rightarrow> rng
   \<Rightarrow> (py_error + results) \<times> rng" where
  "final_metrics fs run_dirs final_win [] res g = (Inr res, g)"
| "final_metrics fs run_dirs final_win ((metric_key, metric_name, fmt) # rest) res g =
     (let all_final_values =
            foldl (extend_final_values fs metric_key final_win) [] run_dirs
      in if all_final_values \<noteq> [] then
           (case bootstrap_ci g all_final_values 1000 (95 / 100) of
              (Inl e, g') \<Rightarrow> (Inl e, g')
            | (Inr (ci_lower, ci_upper), g') \<Rightarrow>
                final_metrics fs run_dirs final_win rest
                  (AList.update metric_name
                     (Flat \<lparr> fin_mean = np_mean all_final_values,
                             fin_std = np_std all_final_values,
                             fin_ci_lower = ci_lower,
                             fin_ci_upper = ci_upper,
                             fin_format = fmt,
                             fin_n_runs = length run_dirs \<rparr>)
                     res)
                  g')
         else final_metrics fs run_dirs final_win rest res g)"

definition analyze_final_performance_only ::
  "filesystem \<Rightarrow> string list \<Rightarrow> int \<Rightarrow> (string \<times> string \<times> string) list \<Rightarrow> rng
   \<Rightarrow> (py_error + results) \<times> rng" where
  "analyze_final_performance_only fs run_dirs final_win ms g =
     final_metrics fs run_dirs final_win ms [] g"

section \<open>analyze\_curriculum\_aware\<close>

text \<open>
  The first loop: \<^verbatim>\<open>all_stage_ranges\<close> holds the stage dictionary of the first run whose
  \<^verbatim>\<open>Stage__Current.csv\<close> exists and loads to non-empty columns (the loop breaks there),
  and stays empty when there is no such run.
\<close>

fun all_stage_ranges :: "filesystem \<Rightarrow> string list \<Rightarrow> stage_dict list" where
  "all_stage_ranges fs [] = []"
| "all_stage_ranges fs (run_dir # rest) =
     (if csv_exists fs run_dir ''Stage__Current.csv'' then
        (case load_csv_data fs run_dir ''Stage__Current.csv'' of
           (stage_steps, stage_values) \<Rightarrow>
             if stage_steps \<noteq> [] \<and> stage_values \<noteq> []
             then [find_stage_transitions stage_steps stage_values]
             else all_stage_ranges fs rest)
      else all_stage_ranges fs rest)"

text \<open>
  \<^verbatim>\<open>stage_performances\<close>: stage number to the list of per-run converged means. One
  entry of a run's performance dictionary is appended to the list of its stage.
\<close>

definition append_mean ::
  "(int \<times> real list) list \<Rightarrow> int \<times> stage_perf \<Rightarrow> (int \<times> real list) list" where
  "append_mean stage_performances item =
     (case item of (stage_num, perf_data) \<Rightarrow>
        AList.update stage_num
          ((case map_of stage_performances stage_num of None \<Rightarrow> [] | Some l \<Rightarrow> l)
             @ [perf_mean perf_data])
          stage_performances)"

definition collect_run ::
  "filesystem \<Rightarrow> string \<Rightarrow> stage_dict \<Rightarrow> int \<Rightarrow> (int \<times> real list) list \<Rightarrow> string
   \<Rightarrow> (int \<times> real list) list" where
  "collect_run fs metric_key ranges stage_window stage_performances run_dir =
     (if csv_exists fs run_dir (metric_key @ ''.csv'') then
        (case load_csv_data fs run_dir (metric_key @ ''.csv'') of
           (steps, vals) \<Rightarrow>
             if steps \<noteq> [] \<and> vals \<noteq> [] then
               foldl append_mean stage_performances
                 (get_stage_performance steps vals ranges stage_window)
             else stage_performances)
      else stage_performances)"

text \<open>
  The branch for a stage with a single per-run mean: the series is read again from
  \<^verbatim>\<open>run_dirs[0]\<close>, and the interval is bootstrapped over its trailing in-stage values.
\<close>

definition single_run_ci ::
  "filesystem \<Rightarrow> string list \<Rightarrow> string \<Rightarrow> stage_dict \<Rightarrow> int \<Rightarrow> int \<Rightarrow> rng
   \<Rightarrow> (py_error + real \<times> real) \<times> rng" where
  "single_run_ci fs run_dirs metric_key ranges stage_window stage_num g =
     (case run_dirs of
        [] \<Rightarrow> (Inl IndexError, g)
      | run_dir # _ \<Rightarrow>
          (case load_csv_data fs run_dir (metric_key @ ''.csv'') of
             (steps, vals) \<Rightarrow>
               if steps \<noteq> [] \<and> vals \<noteq> [] then
                 let run_stage_perf = get_stage_performance steps vals ranges stage_window in
                 if map_of run_stage_perf stage_num \<noteq> None then
                   (case map_of ranges stage_num of
                      None \<Rightarrow> (Inl KeyError, g)
                    | Some (first_step, last_step) \<Rightarrow>
                        let stage_vals = in_stage_values steps vals first_step last_step;
                            stage_vals = (if int (length stage_vals) > stage_window
                                          then py_slice_from stage_vals (- stage_window)
                                          else stage_vals)
                        in bootstrap_ci g stage_vals 1000 (95 / 100))
                 else (Inr (0, 0), g)
               else (Inr (0, 0), g)))"

text \<open>The loop \<^verbatim>\<open>for stage_num in sorted(stage_performances.keys())\<close> of one metric.\<close>

fun stage_results ::
  "filesystem \<Rightarrow> string list \<Rightarrow> string \<Rightarrow> string \<Rightarrow> stage_dict \<Rightarrow> int
   \<Rightarrow> (int \<times> real list) list \<Rightarrow> int list \<Rightarrow> (int \<times> stage_result) list \<Rightarrow> rng
   \<Rightarrow> (py_error + (int \<times> stage_result) list) \<times> rng" where
  "stage_results fs run_dirs metric_key fmt ranges stage_window sp [] acc g = (Inr acc, g)"
| "stage_results fs run_dirs metric_key fmt ranges stage_window sp (stage_num # rest) acc g =
     (case map_of sp stage_num of
        None \<Rightarrow> (Inl KeyError, g)
      | Some stage_values \<Rightarrow>
          if stage_values \<noteq> [] then
            (case (if length stage_values > 1
                   then bootstrap_ci g stage_values 1000 (95 / 100)
                   else single_run_ci fs run_dirs metric_key ranges stage_window stage_num g) of
               (Inl e, g') \<Rightarrow> (Inl e, g')
             | (Inr (ci_lower, ci_upper), g') \<Rightarrow>
                 (case map_of ranges stage_num of
                    None \<Rightarrow> (Inl KeyError, g')
                  | Some r \<Rightarrow>
                      stage_results fs run_dirs metric_key fmt ranges stage_window sp rest
                        (AList.update stage_num
                           \<lparr> res_mean = np_mean stage_values,
                             res_std = (if length stage_values > 1 then np_std stage_values else 0),
                             res_ci_lower = ci_lower,
                             res_ci_upper = ci_upper,
                             res_format = fmt,
                             res_n_runs = length stage_values,
                             res_step_range = r \<rparr>
                           acc)
                        g'))
          else stage_results fs run_dirs metric_key fmt ranges stage_window sp rest acc g)"

text \<open>The loop over the metric table in the stage-aware mode.\<close>

fun staged_metrics ::
  "filesystem \<Rightarrow> string list \<Rightarrow> stage_dict \<Rightarrow> int \<Rightarrow> (string \<times> string \<times> string) list
   \<Rightarrow> results \<Rightarrow> rng \<Rightarrow> (py_error + results) \<times> rng" where
  "staged_metrics fs run_dirs ranges stage_window [] res g = (Inr res, g)"
| "staged_metrics fs run_dirs ranges stage_window ((metric_key, metric_name, fmt) # rest) res g =
     (let sp = foldl (collect_run fs metric_key ranges stage_window) [] run_dirs in
      case stage_results fs run_dirs metric_key fmt ranges stage_window sp
             (sort (map fst sp)) [] g of
        (Inl e, g') \<Rightarrow> (Inl e, g')
      | (Inr d, g') \<Rightarrow>
          staged_metrics fs run_dirs ranges stage_window rest
            (AList.update metric_name (Staged d) res) g')"

definition analyze_curriculum_aware ::
  "filesystem \<Rightarrow> string list \<Rightarrow> int \<Rightarrow> rng \<Rightarrow> (py_error + results) \<times> rng" where
  "analyze_curriculum_aware fs run_dirs stage_window g =
     (case all_stage_ranges fs run_dirs of
        [] \<Rightarrow> analyze_final_performance_only fs run_dirs stage_window metrics g
      | ranges # _ \<Rightarrow> staged_metrics fs run_dirs ranges stage_window metrics [] g)"

section \<open>main\<close>

text \<open>
  The directories that exist and hold at least one CSV file; the flag computed from the
  results; and what \<^verbatim>\<open>main\<close> does: it stops early, or calls
  \<^verbatim>\<open>generate_curriculum_summary(results, out_file, is_curriculum_aware)\<close>.
\<close>

definition valid_dirs :: "filesystem \<Rightarrow> string list \<Rightarrow> string list" where
  "valid_dirs fs run_dirs =
     filter (\<lambda>run_dir. case fs run_dir of None \<Rightarrow> False | Some files \<Rightarrow> files \<noteq> []) run_dirs"

definition is_curriculum_aware :: "results \<Rightarrow> bool" where
  "is_curriculum_aware res = list_ex (\<lambda>data. isinstance_dict data \<and> py_len data > 1) (map snd res)"

datatype outcome = NoValidDirs | NoMetrics | Summary results bool

definition main :: "filesystem \<Rightarrow> string list \<Rightarrow> int \<Rightarrow> rng \<Rightarrow> (py_error + outcome) \<times> rng" where
  "main fs run_dirs stage_window g =
     (let valid = valid_dirs fs run_dirs in
      if valid = [] then (Inr NoValidDirs, g)
      else
        case analyze_curriculum_aware fs valid stage_window g of
          (Inl e, g') \<Rightarrow> (Inl e, g')
        | (Inr res, g') \<Rightarrow>
            if res = [] then (Inr NoMetrics, g')
            else (Inr (Summary res (is_curriculum_aware res)), g'))"

text \<open>
  The line \<^verbatim>\<open>generate_curriculum_summary\<close> writes below the title of the text summary,
  naming the mode it renders; the flag selects the stage-aware tables or the flat table
  in the same way. The tables themselves are not modelled.
\<close>

definition summary_mode_line :: "bool \<Rightarrow> string" where
  "summary_mode_line aware =
     (if aware then ''Performance metrics analyzed per curriculum stage''
      else ''Final performance analysis (curriculum stages not detected)'')"

section \<open>analyze\_runs (generate\_statistical\_summary.py)\<close>

record final_stats =
  stat_mean :: real
  stat_std :: real
  stat_min :: real
  stat_max :: real

definition get_final_performance :: "real list \<Rightarrow> int \<Rightarrow> final_stats" where
  "get_final_performance vals window =
     (let final_vals = (if vals = [] \<or> int (length vals) < window then vals
                        else py_slice_from vals (- window))
      in if final_vals = [] then \<lparr> stat_mean = 0, stat_std = 0, stat_min = 0, stat_max = 0 \<rparr>
         else \<lparr> stat_mean = np_mean final_vals, stat_std = np_std final_vals,
                stat_min = np_min final_vals, stat_max = np_max final_vals \<rparr>)"

text \<open>One run of the inner loop: the mean of the run's final window is appended.\<close>

definition extend_final_means ::
  "filesystem \<Rightarrow> string \<Rightarrow> int \<Rightarrow> real list \<Rightarrow> string \<Rightarrow> real list" where
  "extend_final_means fs metric_key final_win all_final_values run_dir =
     (if csv_exists fs run_dir (metric_key @ ''.csv'') then
        (case load_csv_data fs run_dir (metric_key @ ''.csv'') of
           (steps, vals) \<Rightarrow>
             if vals \<noteq> [] then
               all_final_values @ [stat_mean (get_final_performance vals final_win)]
             else all_final_values)
      else all_final_values)"

text \<open>The branch for a single mean: the final window of \<^verbatim>\<open>run_dirs[0]\<close> is bootstrapped.\<close>

definition single_run_final_ci ::
  "filesystem \<Rightarrow> string list \<Rightarrow> string \<Rightarrow> int \<Rightarrow> rng \<Rightarrow> (py_error + real \<times> real) \<times> rng" where
  "single_run_final_ci fs run_dirs metric_key final_win g =
     (case run_dirs of
        [] \<Rightarrow> (Inl IndexError, g)
      | run_dir # _ \<Rightarrow>
          (case load_csv_data fs run_dir (metric_key @ ''.csv'') of
             (steps, vals) \<Rightarrow>
               if vals \<noteq> [] then
                 bootstrap_ci g
                   (if int (length vals) \<ge> final_win then py_slice_from vals (- final_win)
                    else vals)
                   1000 (95 / 100)
               else (Inr (0, 0), g)))"

fun runs_metrics ::
  "filesystem \<Rightarrow> string list \<Rightarrow> int \<Rightarrow> (string \<times> string \<times> string) list \<Rightarrow> results \<Rightarrow> rng
   \<Rightarrow> (py_error + results) \<times> rng" where
  "runs_metrics fs run_dirs final_win [] res g = (Inr res, g)"
| "runs_metrics fs run_dirs final_win ((metric_key, metric_name, fmt) # rest) res g =
     (let all_final_values =
            foldl (extend_final_means fs metric_key final_win) [] run_dirs
      in if all_final_values \<noteq> [] then
           (case (if length all_final_values > 1
                  then bootstrap_ci g all_final_values 1000 (95 / 100)
                  else single_run_final_ci fs run_dirs metric_key final_win g) of
              (Inl e, g') \<Rightarrow> (Inl e, g')
            | (Inr (ci_lower, ci_upper), g') \<Rightarrow>
                runs_metrics fs run_dirs final_win rest
                  (AList.update metric_name
                     (Flat \<lparr> fin_mean = np_mean all_final_values,
                             fin_std = (if length all_final_values > 1
                                        then np_std all_final_values else 0),
                             fin_ci_lower = ci_lower,
                             fin_ci_upper = ci_upper,
                             fin_format = fmt,
                             fin_n_runs = length all_final_values \<rparr>)
                     res)
                  g')
         else runs_metrics fs run_dirs final_win rest res g)"

definition analyze_runs ::
  "filesystem \<Rightarrow> string list \<Rightarrow> int \<Rightarrow> rng \<Rightarrow> (py_error + results) \<times> rng" where
  "analyze_runs fs run_dirs final_win g = runs_metrics fs run_dirs final_win metrics [] g"

section \<open>format\_value\<close>

text \<open>
  Python's fixed-point formatting \<^verbatim>\<open>format(x, '.df')\<close> of a float: the exact value of
  \<open>x\<close> is rounded to \<open>d\<close> decimals, ties going to the even digit, and written with a
  minus sign when \<open>x\<close> is negative, the digits of the integer part, and, for \<open>d > 0\<close>, a
  point and exactly \<open>d\<close> digits. (The float \<open>-0.0\<close> is outside the model.)
\<close>

definition round_half_even :: "real \<Rightarrow> int" where
  "round_half_even y =
     (let f = \<lfloor>y\<rfloor>; r = y - of_int f
      in if r < 1 / 2 then f else if r > 1 / 2 then f + 1 else if even f then f else f + 1)"

definition digit_char :: "nat \<Rightarrow> char" where
  "digit_char n = ''0123456789'' ! n"

fun show_nat :: "nat \<Rightarrow> string" where
  "show_nat n = (if n < 10 then [digit_char n] else show_nat (n div 10) @ [digit_char (n mod 10)])"

declare show_nat.simps [simp del]

definition pad_left :: "nat \<Rightarrow> string \<Rightarrow> string" where
  "pad_left d s = replicate (d - length s) (CHR ''0'') @ s"

definition py_format_f :: "nat \<Rightarrow> real \<Rightarrow> string" where
  "py_format_f d x =
     (let n = nat (round_half_even (\<bar>x\<bar> * 10 ^ d))
      in (if x < 0 then ''-'' else '''')
         @ show_nat (n div 10 ^ d)
         @ (if d = 0 then '''' else ''.'' @ pad_left d (show_nat (n mod 10 ^ d))))"

text \<open>
  \<^verbatim>\<open>format_value(value, format_type)\<close>, the same text in both scripts. The product
  \<^verbatim>\<open>value*100\<close> is a floating-point multiplication; \<open>fmul\<close> stands for it, so that what is
  proved does not depend on how the machine rounds the product.
\<close>

definition format_value :: "(real \<Rightarrow> real \<Rightarrow> real) \<Rightarrow> real \<Rightarrow> string \<Rightarrow> string" where
  "format_value fmul v format_type =
     (if format_type = ''percentage'' then py_format_f 1 (fmul v 100) @ ''%''
      else if format_type = ''float'' then
        (if \<bar>v\<bar> > 100 then py_format_f 0 v else py_format_f 2 v)
      else py_format_f 3 v)"

text \<open>
  Reading a string of decimal digits as a number, and what it means for a string to be
  the rendering of \<open>x\<close> to exactly \<open>d\<close> decimal places, stated without the formatter: a
  minus sign exactly when \<open>x\<close> is negative; an integer part of at least one digit with no
  superfluous leading zero; for \<open>d > 0\<close> a point followed by exactly \<open>d\<close> digits; and the
  digits, read without the point, are the integer nearest to \<open>|x| * 10^d\<close>, the even one
  of the two when \<open>|x| * 10^d\<close> lies halfway.
\<close>

definition digit_val :: "char \<Rightarrow> nat" where
  "digit_val c = of_char c - 48"

definition read_nat :: "string \<Rightarrow> nat" where
  "read_nat s = foldl (\<lambda>a c. 10 * a + digit_val c) 0 s"

definition is_rendering :: "nat \<Rightarrow> real \<Rightarrow> string \<Rightarrow> bool" where
  "is_rendering d x s =
     (\<exists>ip fp.
        s = (if x < 0 then ''-'' else []) @ ip @ (if d = 0 then [] else ''.'' @ fp)
        \<and> ip \<noteq> [] \<and> set ip \<subseteq> set ''0123456789'' \<and> (hd ip = CHR ''0'' \<longrightarrow> ip = ''0'')
        \<and> length fp = d \<and> set fp \<subseteq> set ''0123456789''
        \<and> \<bar>real (read_nat (ip @ fp)) - \<bar>x\<bar> * 10 ^ d\<bar> \<le> 1 / 2
        \<and> (\<bar>real (read_nat (ip @ fp)) - \<bar>x\<bar> * 10 ^ d\<bar> = 1 / 2 \<longrightarrow> even (read_nat (ip @ fp))))"

section \<open>Facts about the scan\<close>

lemma scan_prefix_all:
  "scan_prefix ss vs (length (zip ss vs)) =
     foldl (scan_step ss) (scan_init ss vs) (enumerate 0 (zip ss vs))"
  by (simp add: scan_prefix_def)

lemma scan_prefix_Suc:
  assumes "i < length (zip ss vs)"
  shows "scan_prefix ss vs (Suc i) = scan_step ss (scan_prefix ss vs i) (i, ss ! i, vs ! i)"
proof -
  let ?xs = "enumerate 0 (zip ss vs)"
  have len: "i < length ?xs" using assms by simp
  have "take (Suc i) ?xs = take i ?xs @ [?xs ! i]"
    using len by (rule take_Suc_conv_app_nth)
  moreover have "?xs ! i = (i, ss ! i, vs ! i)"
    using assms by (simp add: nth_enumerate_eq)
  ultimately show ?thesis
    by (simp add: scan_prefix_def)
qed

lemma scan_step_keys:
  assumes "fst ` set (stage_ranges st) \<subseteq> A" "current_stage st \<in> A" "py_int (snd (snd x)) \<in> A"
  shows "fst ` set (stage_ranges (scan_step ss st x)) \<subseteq> A \<and> current_stage (scan_step ss st x) \<in> A"
  using assms by (cases x) (auto simp: scan_step_def Let_def dom_update)

lemma scan_fold_keys:
  assumes "fst ` set (stage_ranges st) \<subseteq> A" "current_stage st \<in> A"
    "\<And>x. x \<in> set xs \<Longrightarrow> py_int (snd (snd x)) \<in> A"
  shows "fst ` set (stage_ranges (foldl (scan_step ss) st xs)) \<subseteq> A
         \<and> current_stage (foldl (scan_step ss) st xs) \<in> A"
  using assms
proof (induction xs arbitrary: st)
  case Nil
  then show ?case by simp
next
  case (Cons x xs)
  have "fst ` set (stage_ranges (scan_step ss st x)) \<subseteq> A \<and> current_stage (scan_step ss st x) \<in> A"
    using Cons.prems by (intro scan_step_keys) auto
  then show ?case
    using Cons.IH [of "scan_step ss st x"] Cons.prems(3) by simp
qed

lemma enumerate_zip_values:
  assumes "x \<in> set (enumerate n (zip ss vs))"
  shows "snd (snd x) \<in> set vs"
proof -
  obtain i s v where x: "x = (i, s, v)"
    by (cases x) auto
  from assms have "(i, s, v) \<in> set (zip [n..<n + length (zip ss vs)] (zip ss vs))"
    by (simp add: x enumerate_eq_zip)
  then have "(s, v) \<in> set (zip ss vs)"
    by (rule set_zip_rightD)
  then have "v \<in> set vs"
    by (rule set_zip_rightD)
  then show ?thesis
    by (simp add: x)
qed

lemma find_stage_transitions_keys:
  "fst ` set (find_stage_transitions ss vs) \<subseteq> py_int ` set vs"
proof (cases "ss = [] \<or> vs = []")
  case True
  then show ?thesis by (auto simp: find_stage_transitions_def)
next
  case False
  let ?A = "py_int ` set vs"
  let ?st = "foldl (scan_step ss) (scan_init ss vs) (enumerate 0 (zip ss vs))"
  have "fst ` set (stage_ranges ?st) \<subseteq> ?A \<and> current_stage ?st \<in> ?A"
  proof (rule scan_fold_keys)
    show "fst ` set (stage_ranges (scan_init ss vs)) \<subseteq> ?A"
      by (simp add: scan_init_def)
    show "current_stage (scan_init ss vs) \<in> ?A"
      using False by (simp add: scan_init_def)
    show "py_int (snd (snd x)) \<in> ?A" if "x \<in> set (enumerate 0 (zip ss vs))" for x
      using enumerate_zip_values [OF that] by simp
  qed
  then show ?thesis
    using False by (auto simp: find_stage_transitions_def Let_def dom_update)
qed

lemma update_hd_key:
  "al \<noteq> [] \<Longrightarrow> fst (hd (AList.update k v al)) = fst (hd al)"
  by (cases al) auto

lemma scan_step_first_key:
  assumes "if stage_ranges st = [] then current_stage st = k0 else fst (hd (stage_ranges st)) = k0"
  shows "if stage_ranges (scan_step ss st x) = [] then current_stage (scan_step ss st x) = k0
         else fst (hd (stage_ranges (scan_step ss st x))) = k0"
  using assms
  by (cases x; cases "stage_ranges st") (auto simp: scan_step_def Let_def)

lemma scan_fold_first_key:
  assumes "if stage_ranges st = [] then current_stage st = k0 else fst (hd (stage_ranges st)) = k0"
  shows "if stage_ranges (foldl (scan_step ss) st xs) = []
         then current_stage (foldl (scan_step ss) st xs) = k0
         else fst (hd (stage_ranges (foldl (scan_step ss) st xs))) = k0"
  using assms
proof (induction xs arbitrary: st)
  case Nil
  then show ?case by simp
next
  case (Cons x xs)
  show ?case
    using Cons.IH [OF scan_step_first_key [OF Cons.prems]] by simp
qed

lemma find_stage_transitions_first_key:
  assumes "ss \<noteq> []" "vs \<noteq> []"
  shows "fst (hd (find_stage_transitions ss vs)) = py_int (hd vs)"
proof -
  let ?st = "foldl (scan_step ss) (scan_init ss vs) (enumerate 0 (zip ss vs))"
  have "if stage_ranges ?st = [] then current_stage ?st = py_int (hd vs)
        else fst (hd (stage_ranges ?st)) = py_int (hd vs)"
    by (rule scan_fold_first_key) (simp add: scan_init_def)
  then show ?thesis
    using assms
    by (cases "stage_ranges ?st")
       (auto simp: find_stage_transitions_def Let_def update_hd_key split: if_splits)
qed

section \<open>The scan computes the runs\<close>

lemma scan_fold_segs:
  assumes "1 \<le> n" "n \<le> length ss" "length ss = length vs"
  shows "(let st' = foldl (scan_step ss) st (enumerate n (drop n (zip ss vs)))
          in AList.update (current_stage st') (stage_start st', last ss) (stage_ranges st'))
         = foldl put (stage_ranges st)
             (segs_from (current_stage st) (stage_start st) (ss ! (n - 1))
                (drop n (truncated ss vs)))"
  using assms
proof (induction "length ss - n" arbitrary: n st)
  case 0
  then have n: "n = length ss" by simp
  then have "ss \<noteq> []" using 0 by auto
  then have "last ss = ss ! (n - 1)" by (simp add: last_conv_nth n)
  then show ?case using 0 n by (simp add: truncated_def put_def)
next
  case (Suc m)
  then have lt: "n < length ss" by simp
  have dz: "drop n (zip ss vs) = (ss ! n, vs ! n) # drop (Suc n) (zip ss vs)"
    using lt Suc.prems Cons_nth_drop_Suc [of n "zip ss vs"] by simp
  have dt: "drop n (truncated ss vs) = (ss ! n, py_int (vs ! n)) # drop (Suc n) (truncated ss vs)"
    using lt Suc.prems Cons_nth_drop_Suc [of n "zip ss (map py_int vs)"]
    by (simp add: truncated_def)
  have m: "m = length ss - Suc n" using Suc.hyps(2) by simp
  have IH: "(let st' = foldl (scan_step ss) st0 (enumerate (Suc n) (drop (Suc n) (zip ss vs)))
          in AList.update (current_stage st') (stage_start st', last ss) (stage_ranges st'))
         = foldl put (stage_ranges st0)
             (segs_from (current_stage st0) (stage_start st0) (ss ! n)
                (drop (Suc n) (truncated ss vs)))" for st0
    using Suc.hyps(1) [OF m, of st0] lt Suc.prems by simp
  show ?case
  proof (cases "py_int (vs ! n) = current_stage st")
    case True
    then have "scan_step ss st (n, ss ! n, vs ! n) = st"
      by (simp add: scan_step_def)
    then show ?thesis
      using IH [of st] True by (simp add: dz dt)
  next
    case False
    let ?st1 = "scan_step ss st (n, ss ! n, vs ! n)"
    have st1: "?st1 = \<lparr> stage_ranges = AList.update (current_stage st) (stage_start st, ss ! (n - 1)) (stage_ranges st),
                 current_stage = py_int (vs ! n), stage_start = ss ! n \<rparr>"
      using False Suc.prems(1) by (simp add: scan_step_def Let_def)
    show ?thesis
      using IH [of ?st1] False by (simp add: dz dt st1 put_def)
  qed
qed

lemma find_stage_transitions_segs:
  assumes "ss \<noteq> []" "length ss = length vs"
  shows "find_stage_transitions ss vs =
         foldl put [] (segs_from (py_int (hd vs)) (hd ss) (hd ss) (tl (truncated ss vs)))"
proof -
  obtain s ss' where ss: "ss = s # ss'" using assms(1) by (cases ss) auto
  obtain v vs' where vs: "vs = v # vs'" using assms by (cases vs) auto
  have first: "scan_step ss (scan_init ss vs) (0, s, v) = scan_init ss vs"
    by (simp add: scan_step_def scan_init_def vs)
  have "enumerate 0 (zip ss vs) = (0, s, v) # enumerate 1 (drop 1 (zip ss vs))"
    by (simp add: ss vs)
  then have "foldl (scan_step ss) (scan_init ss vs) (enumerate 0 (zip ss vs))
        = foldl (scan_step ss) (scan_init ss vs) (enumerate 1 (drop 1 (zip ss vs)))"
    using first by simp
  moreover have "(let st' = foldl (scan_step ss) (scan_init ss vs) (enumerate 1 (drop 1 (zip ss vs)))
          in AList.update (current_stage st') (stage_start st', last ss) (stage_ranges st'))
         = foldl put (stage_ranges (scan_init ss vs))
             (segs_from (current_stage (scan_init ss vs)) (stage_start (scan_init ss vs)) (ss ! (1 - 1))
                (drop 1 (truncated ss vs)))"
    by (rule scan_fold_segs) (use assms in \<open>auto simp: ss\<close>)
  ultimately show ?thesis
    using assms by (simp add: find_stage_transitions_def Let_def scan_init_def drop_Suc ss vs)
qed

lemma segs_from_keys:
  "map fst (segs_from cur start prev ps) = remdups_adj (cur # map snd ps)"
  by (induction ps arbitrary: cur start prev) auto

lemma segs_from_nonempty: "segs_from cur start prev ps \<noteq> []"
  by (induction ps arbitrary: cur start prev) (auto split: if_splits)

lemma segs_from_hd:
  assumes "sorted_wrt same_step_same_stage ((prev, cur) # ps)"
  shows "\<exists>e. hd (segs_from cur start prev ps) = (cur, (start, e)) \<and> prev \<le> e"
  using assms
proof (induction ps arbitrary: prev)
  case Nil
  then show ?case by simp
next
  case (Cons p ps)
  obtain s k where p: "p = (s, k)" by (cases p) auto
  show ?case
  proof (cases "k = cur")
    case True
    have "sorted_wrt same_step_same_stage ((s, cur) # ps)"
      using Cons.prems True by (simp add: p)
    from Cons.IH [OF this] obtain e where
      "hd (segs_from cur start s ps) = (cur, (start, e))" "s \<le> e" by blast
    moreover have "prev \<le> s"
      using Cons.prems by (auto simp: p same_step_same_stage_def)
    ultimately show ?thesis using True by (auto simp: p)
  next
    case False
    then show ?thesis by (simp add: p)
  qed
qed

lemma segs_from_bounds:
  assumes "start \<le> prev" "sorted_wrt same_step_same_stage ((prev, cur) # ps)"
    "x \<in> set (segs_from cur start prev ps)"
  shows "start \<le> fst (snd x) \<and> fst (snd x) \<le> snd (snd x)"
  using assms
proof (induction ps arbitrary: cur start prev)
  case Nil
  then show ?case by simp
next
  case (Cons p ps)
  obtain s k where p: "p = (s, k)" by (cases p) auto
  have le: "prev \<le> s"
    using Cons.prems(2) by (auto simp: p same_step_same_stage_def)
  have tl: "sorted_wrt same_step_same_stage ((s, k) # ps)"
    using Cons.prems(2) by (simp add: p)
  show ?case
  proof (cases "k = cur")
    case True
    have "x \<in> set (segs_from cur start s ps)"
      using Cons.prems(3) True by (simp add: p)
    moreover have "start \<le> s" using le Cons.prems(1) by simp
    ultimately show ?thesis
      using Cons.IH [of start s cur] tl True by simp
  next
    case False
    then have "x = (cur, (start, prev)) \<or> x \<in> set (segs_from k s s ps)"
      using Cons.prems(3) by (simp add: p)
    then show ?thesis
    proof
      assume "x = (cur, (start, prev))"
      then show ?thesis using Cons.prems(1) by simp
    next
      assume "x \<in> set (segs_from k s s ps)"
      then have "s \<le> fst (snd x) \<and> fst (snd x) \<le> snd (snd x)"
        using Cons.IH [of s s k] tl by simp
      then show ?thesis using le Cons.prems(1) by simp
    qed
  qed
qed

lemma segs_from_sorted:
  assumes "start \<le> prev" "sorted_wrt same_step_same_stage ((prev, cur) # ps)"
  shows "sorted_wrt seg_before (segs_from cur start prev ps)"
  using assms
proof (induction ps arbitrary: cur start prev)
  case Nil
  then show ?case by simp
next
  case (Cons p ps)
  obtain s k where p: "p = (s, k)" by (cases p) auto
  have le: "prev \<le> s"
    using Cons.prems(2) by (auto simp: p same_step_same_stage_def)
  have tl: "sorted_wrt same_step_same_stage ((s, k) # ps)"
    using Cons.prems(2) by (simp add: p)
  show ?case
  proof (cases "k = cur")
    case True
    then show ?thesis
      using Cons.IH [of start s cur] tl le Cons.prems(1) by (simp add: p)
  next
    case False
    then have lt: "prev < s"
      using Cons.prems(2) by (auto simp: p same_step_same_stage_def)
    have "seg_before (cur, (start, prev)) x" if "x \<in> set (segs_from k s s ps)" for x
      using segs_from_bounds [OF _ tl that] lt by (simp add: seg_before_def)
    moreover have "sorted_wrt seg_before (segs_from k s s ps)"
      using Cons.IH [of s s k] tl by simp
    ultimately show ?thesis using False by (simp add: p)
  qed
qed

lemma segs_from_cover:
  assumes "sorted_wrt same_step_same_stage ((prev, cur) # ps)" "start \<le> prev"
    "s = prev \<or> s \<in> fst ` set ps"
  shows "\<exists>x \<in> set (segs_from cur start prev ps). in_seg s x"
  using assms
proof (induction ps arbitrary: cur start prev)
  case Nil
  then show ?case by (simp add: in_seg_def)
next
  case (Cons p ps)
  obtain s' k where p: "p = (s', k)" by (cases p) auto
  have le: "prev \<le> s'"
    using Cons.prems(1) by (auto simp: p same_step_same_stage_def)
  have tl: "sorted_wrt same_step_same_stage ((s', k) # ps)"
    using Cons.prems(1) by (simp add: p)
  show ?case
  proof (cases "k = cur")
    case True
    have tl': "sorted_wrt same_step_same_stage ((s', cur) # ps)" using tl True by simp
    show ?thesis
    proof (cases "s = prev")
      case True
      from segs_from_hd [OF tl', of start] obtain e where
        e: "hd (segs_from cur start s' ps) = (cur, (start, e))" "s' \<le> e" by blast
      have "hd (segs_from cur start s' ps) \<in> set (segs_from cur start s' ps)"
        by (simp add: segs_from_nonempty)
      moreover have "in_seg s (hd (segs_from cur start s' ps))"
        using e le True Cons.prems(2) by (simp add: in_seg_def)
      ultimately show ?thesis using \<open>k = cur\<close> by (auto simp: p)
    next
      case False
      then have "s = s' \<or> s \<in> fst ` set ps" using Cons.prems(3) by (auto simp: p)
      then show ?thesis
        using Cons.IH [OF tl', of start] le Cons.prems(2) \<open>k = cur\<close> by (simp add: p)
    qed
  next
    case False
    show ?thesis
    proof (cases "s = prev")
      case True
      then have "in_seg s (cur, (start, prev))" using Cons.prems(2) by (simp add: in_seg_def)
      then show ?thesis using False by (auto simp: p)
    next
      case F: False
      then have "s = s' \<or> s \<in> fst ` set ps" using Cons.prems(3) by (auto simp: p)
      then show ?thesis
        using Cons.IH [OF tl, of s'] False by (simp add: p)
    qed
  qed
qed

lemma segs_from_last:
  "snd (snd (last (segs_from cur start prev ps))) = last (prev # map fst ps)"
  by (induction ps arbitrary: cur start prev) (auto simp: segs_from_nonempty)

lemma update_fresh:
  "k \<notin> fst ` set al \<Longrightarrow> AList.update k v al = al @ [(k, v)]"
  by (induction al) auto

lemma foldl_put_distinct:
  "distinct (map fst (d @ xs)) \<Longrightarrow> foldl put d xs = d @ xs"
proof (induction xs arbitrary: d)
  case Nil
  then show ?case by simp
next
  case (Cons x xs)
  have "put d x = d @ [x]"
    using Cons.prems by (cases x) (auto simp: put_def update_fresh)
  then show ?case using Cons.IH [of "d @ [x]"] Cons.prems by simp
qed

lemma sorted_wrt_pair:
  "sorted_wrt P xs \<Longrightarrow> x \<in> set xs \<Longrightarrow> y \<in> set xs \<Longrightarrow> x \<noteq> y \<Longrightarrow> P x y \<or> P y x"
  by (induction xs) auto

lemma find_stage_transitions_runs:
  assumes "ss \<noteq> []" "length ss = length vs" "distinct (remdups_adj (map py_int vs))"
  shows "find_stage_transitions ss vs =
           segs_from (py_int (hd vs)) (hd ss) (hd ss) (tl (truncated ss vs))"
    and "map fst (find_stage_transitions ss vs) = remdups_adj (map py_int vs)"
proof -
  obtain s ss' where ss: "ss = s # ss'" using assms(1) by (cases ss) auto
  obtain v vs' where vs: "vs = v # vs'" using assms by (cases vs) auto
  let ?segs = "segs_from (py_int (hd vs)) (hd ss) (hd ss) (tl (truncated ss vs))"
  have len: "length ss' = length vs'" using assms(2) by (simp add: ss vs)
  have keys: "map fst ?segs = remdups_adj (map py_int vs)"
    using len by (simp add: segs_from_keys truncated_def ss vs)
  then have "distinct (map fst ([] @ ?segs))" using assms(3) by simp
  then have "foldl put [] ?segs = [] @ ?segs" by (rule foldl_put_distinct)
  then show "find_stage_transitions ss vs = ?segs"
    using find_stage_transitions_segs [OF assms(1,2)] by simp
  then show "map fst (find_stage_transitions ss vs) = remdups_adj (map py_int vs)"
    using keys by simp
qed

lemma find_stage_transitions_partition:
  assumes "stage_steps \<noteq> []" "length stage_steps = length stage_values"
    and "steps_respect_stages stage_steps stage_values"
    and "distinct (remdups_adj (map py_int stage_values))"
  shows "map fst (find_stage_transitions stage_steps stage_values)
           = remdups_adj (map py_int stage_values)
    \<and> (\<forall>x \<in> set (find_stage_transitions stage_steps stage_values).
         \<forall>y \<in> set (find_stage_transitions stage_steps stage_values).
           x \<noteq> y \<longrightarrow> \<not> (\<exists>s. in_seg s x \<and> in_seg s y))
    \<and> (\<forall>s \<in> set stage_steps.
         \<exists>!x. x \<in> set (find_stage_transitions stage_steps stage_values) \<and> in_seg s x)
    \<and> fst (snd (hd (find_stage_transitions stage_steps stage_values))) = hd stage_steps
    \<and> snd (snd (last (find_stage_transitions stage_steps stage_values))) = last stage_steps"
proof -
  let ?R = "find_stage_transitions stage_steps stage_values"
  let ?ps = "tl (truncated stage_steps stage_values)"
  let ?s0 = "hd stage_steps"
  let ?k0 = "py_int (hd stage_values)"
  obtain s ss' where ss: "stage_steps = s # ss'" using assms(1) by (cases stage_steps) auto
  obtain v vs' where vs: "stage_values = v # vs'" using assms(1,2) by (cases stage_values) auto
  have len: "length ss' = length vs'" using assms(2) by (simp add: ss vs)
  have R: "?R = segs_from ?k0 ?s0 ?s0 ?ps"
    by (rule find_stage_transitions_runs(1) [OF assms(1,2,4)])
  have keys: "map fst ?R = remdups_adj (map py_int stage_values)"
    by (rule find_stage_transitions_runs(2) [OF assms(1,2,4)])
  have tr: "(?s0, ?k0) # ?ps = truncated stage_steps stage_values"
    by (simp add: truncated_def ss vs)
  have ord: "sorted_wrt same_step_same_stage ((?s0, ?k0) # ?ps)"
    using assms(3) unfolding tr by (simp add: steps_respect_stages_def truncated_def)
  have sorted: "sorted_wrt seg_before ?R"
    unfolding R by (rule segs_from_sorted [OF _ ord]) simp
  have bounds: "fst (snd x) \<le> snd (snd x)" if "x \<in> set ?R" for x
    using segs_from_bounds [OF _ ord, of ?s0 x] that unfolding R by simp
  have disj: "\<not> (\<exists>t. in_seg t x \<and> in_seg t y)"
    if "x \<in> set ?R" "y \<in> set ?R" "x \<noteq> y" for x y
  proof -
    from sorted_wrt_pair [OF sorted that] have "seg_before x y \<or> seg_before y x" .
    then show ?thesis by (auto simp: seg_before_def in_seg_def)
  qed
  have mapfst: "map fst ?ps = ss'" using len by (simp add: truncated_def ss vs)
  have "fst ` set ?ps = set (map fst ?ps)" by simp
  then have steps: "fst ` set ?ps = set ss'" unfolding mapfst .
  have cover: "\<exists>x \<in> set ?R. in_seg t x" if "t \<in> set stage_steps" for t
  proof -
    from that have "t = ?s0 \<or> t \<in> fst ` set ?ps"
      unfolding steps by (auto simp: ss)
    from segs_from_cover [OF ord _ this, of ?s0] show ?thesis
      unfolding R by simp
  qed
  have uniq: "\<exists>!x. x \<in> set ?R \<and> in_seg t x" if "t \<in> set stage_steps" for t
  proof -
    from cover [OF that] obtain x where x: "x \<in> set ?R" "in_seg t x" by blast
    show ?thesis
    proof (rule ex1I [of _ x])
      show "x \<in> set ?R \<and> in_seg t x" using x by simp
      show "y = x" if "y \<in> set ?R \<and> in_seg t y" for y
        using disj [of x y] x that by blast
    qed
  qed
  have first: "fst (snd (hd ?R)) = ?s0"
    using segs_from_hd [OF ord, of ?s0] unfolding R by auto
  have final: "snd (snd (last ?R)) = last stage_steps"
    unfolding R by (simp add: segs_from_last mapfst) (simp add: ss)
  show ?thesis
    using keys disj uniq first final by blast
qed

lemma py_int_round:
  assumes "frac \<bar>v\<bar> < 1 / 2"
  shows "py_int v = round v"
proof (cases "v < 0")
  case False
  then have f: "v - of_int \<lfloor>v\<rfloor> < 1 / 2" using assms by (simp add: frac_def)
  have "\<lfloor>v + 1 / 2\<rfloor> = \<lfloor>v\<rfloor>"
    by (rule floor_unique) (use f in linarith)+
  then show ?thesis using False by (simp add: py_int_def round_def)
next
  case True
  then have f: "- v - of_int \<lfloor>- v\<rfloor> < 1 / 2" using assms by (simp add: frac_def)
  have "\<lfloor>v + 1 / 2\<rfloor> = - \<lfloor>- v\<rfloor>"
    by (rule floor_unique) (use f in \<open>simp; linarith\<close>)+
  then show ?thesis using True by (simp add: py_int_def round_def ceiling_def)
qed

section \<open>Facts about get\_stage\_performance\<close>


lemma perf_step_entry:
  "perf_step steps vals w d (k, r) =
     (case stage_entry steps vals w r of None \<Rightarrow> d | Some p \<Rightarrow> AList.update k p d)"
  by (cases r) (simp add: perf_step_def stage_entry_def Let_def)

lemma perf_step_lookup:
  "map_of (perf_step steps vals w d (k, r)) k' =
     (if k' = k then (case stage_entry steps vals w r of None \<Rightarrow> map_of d k | Some p \<Rightarrow> Some p)
      else map_of d k')"
  by (simp add: perf_step_entry update_conv' split: option.splits)

lemma perf_fold_other:
  "k \<notin> fst ` set ranges \<Longrightarrow>
     map_of (foldl (perf_step steps vals w) d ranges) k = map_of d k"
proof (induction ranges arbitrary: d)
  case Nil
  then show ?case by simp
next
  case (Cons item ranges)
  obtain k' r where item: "item = (k', r)" by (cases item) auto
  then have "k' \<noteq> k" using Cons.prems by auto
  then show ?case
    using Cons.IH [of "perf_step steps vals w d item"] Cons.prems
    by (simp add: item perf_step_lookup)
qed

lemma perf_fold_lookup:
  assumes "distinct (map fst ranges)" "(k, r) \<in> set ranges"
  shows "map_of (foldl (perf_step steps vals w) d ranges) k =
           (case stage_entry steps vals w r of None \<Rightarrow> map_of d k | Some p \<Rightarrow> Some p)"
  using assms
proof (induction ranges arbitrary: d)
  case Nil
  then show ?case by simp
next
  case (Cons item ranges)
  obtain k' r' where item: "item = (k', r')" by (cases item) auto
  show ?case
  proof (cases "item = (k, r)")
    case True
    then have "k \<notin> fst ` set ranges" using Cons.prems(1) by auto
    then show ?thesis
      using True by (simp add: perf_fold_other perf_step_lookup)
  next
    case False
    then have mem: "(k, r) \<in> set ranges" using Cons.prems(2) by simp
    then have "k' \<noteq> k" using Cons.prems(1) by (force simp: item)
    then have "map_of (perf_step steps vals w d item) k = map_of d k"
      by (simp add: item perf_step_lookup)
    then show ?thesis
      using Cons.IH [OF _ mem, of "perf_step steps vals w d item"] Cons.prems(1)
      by (simp split: option.splits)
  qed
qed

lemma get_stage_performance_lookup:
  assumes "distinct (map fst ranges)" "(k, r) \<in> set ranges"
  shows "map_of (get_stage_performance steps vals ranges w) k = stage_entry steps vals w r"
  using perf_fold_lookup [OF assms, of steps vals w "[]"]
  by (simp add: get_stage_performance_def split: option.splits)

lemma final_window_long:
  assumes "1 \<le> w" "int (length xs) > w"
  shows "suffix (final_window xs w) xs \<and> int (length (final_window xs w)) = w"
  using assms by (auto simp: final_window_def py_slice_from_def suffix_drop)

lemma final_window_short:
  "int (length xs) \<le> w \<Longrightarrow> final_window xs w = xs"
  by (simp add: final_window_def)

lemma final_window_zero: "final_window xs 0 = xs"
  by (simp add: final_window_def py_slice_from_def)

section \<open>Facts about bootstrap\_ci\<close>




lemma bootstrap_loop_rng:
  "snd (bootstrap_loop n data g ms) = g\<lparr>pos := pos g + n * length data\<rparr>"
proof (induction n arbitrary: g ms)
  case 0
  then show ?case by simp
next
  case (Suc n)
  show ?case
    by (simp add: np_random_choice_def Suc.IH add.assoc)
qed


lemma bootstrap_ci_rng:
  "snd (bootstrap_ci g data n c) =
     g\<lparr>pos := pos g + (if length data < 2 then 0 else nat n * length data)\<rparr>"
proof (cases "length data < 2")
  case True
  then show ?thesis by (simp add: bootstrap_ci_def)
next
  case False
  obtain ms g' where l: "bootstrap_loop (nat n) data g [] = (ms, g')"
    by (cases "bootstrap_loop (nat n) data g []")
  then have "g' = g\<lparr>pos := pos g + nat n * length data\<rparr>"
    using bootstrap_loop_rng [of "nat n" data g "[]"] by simp
  then show ?thesis
    using False by (simp add: bootstrap_ci_def l Let_def split: sum.splits)
qed


section \<open>Facts about the analysis loops\<close>


lemma final_metrics_skip:
  assumes "foldl (extend_final_values fs key w) [] run_dirs = []"
  shows "final_metrics fs run_dirs w ((key, name, fmt) # ms) res g
           = final_metrics fs run_dirs w ms res g"
  by (subst final_metrics.simps) (simp only: assms Let_def if_False not_True_eq_False simp_thms)

lemma final_metrics_data:
  assumes "foldl (extend_final_values fs key w) [] run_dirs = vals" "vals \<noteq> []"
    and "bootstrap_ci g vals 1000 (95 / 100) = (Inr (lo, hi), g1)"
  shows "final_metrics fs run_dirs w ((key, name, fmt) # ms) res g
           = final_metrics fs run_dirs w ms
               (AList.update name
                  (Flat \<lparr> fin_mean = np_mean vals, fin_std = np_std vals,
                          fin_ci_lower = lo, fin_ci_upper = hi,
                          fin_format = fmt, fin_n_runs = length run_dirs \<rparr>) res) g1"
  by (subst final_metrics.simps)
     (simp only: assms Let_def if_True simp_thms prod.case sum.case)


lemma set_update_subset: "set (AList.update k v al) \<subseteq> insert (k, v) (set al)"
  by (induction al) auto

lemma bootstrap_loop_length:
  "length (fst (bootstrap_loop n data g ms)) = length ms + n"
  by (induction n arbitrary: g ms) (auto simp: np_random_choice_def)

lemma np_percentile_ok:
  "0 \<le> q \<Longrightarrow> q \<le> 100 \<Longrightarrow> a \<noteq> [] \<Longrightarrow> \<exists>p. np_percentile a q = Inr p"
  by (simp add: np_percentile_def Let_def)

lemma bootstrap_ci_default_ok:
  "\<exists>ci. fst (bootstrap_ci g data 1000 (95 / 100)) = Inr ci"
proof (cases "length data < 2")
  case True
  then show ?thesis by (simp add: bootstrap_ci_def)
next
  case False
  obtain ms g' where l: "bootstrap_loop (nat 1000) data g [] = (ms, g')"
    by (cases "bootstrap_loop (nat 1000) data g []")
  have "length ms = 1000"
    using bootstrap_loop_length [of "nat 1000" data g "[]"] l by simp
  then have ne: "ms \<noteq> []" by auto
  obtain lo where lo: "np_percentile ms (100 * (1 - 95 / 100) / 2) = Inr lo"
    using np_percentile_ok [OF _ _ ne, of "100 * (1 - 95 / 100) / 2"] by auto
  obtain hi where hi: "np_percentile ms (100 * (1 - (1 - 95 / 100) / 2)) = Inr hi"
    using np_percentile_ok [OF _ _ ne, of "100 * (1 - (1 - 95 / 100) / 2)"] by auto
  show ?thesis
    using False l lo hi by (simp add: bootstrap_ci_def Let_def)
qed

lemma bootstrap_ci_default_cases:
  obtains lo hi g' where "bootstrap_ci g data 1000 (95 / 100) = (Inr (lo, hi), g')"
proof -
  obtain ci where "fst (bootstrap_ci g data 1000 (95 / 100)) = Inr ci"
    using bootstrap_ci_default_ok by blast
  then show ?thesis
    using that by (cases "bootstrap_ci g data 1000 (95 / 100)"; cases ci) auto
qed


lemma final_metrics_flat:
  assumes "final_metrics fs run_dirs w ms res g = (Inr out, g')"
    and "\<forall>d \<in> snd ` set res. \<exists>r. d = Flat r"
  shows "\<forall>d \<in> snd ` set out. \<exists>r. d = Flat r"
  using assms
proof (induction ms arbitrary: res g)
  case Nil
  then show ?case by simp
next
  case (Cons m ms)
  obtain key name fmt where m: "m = (key, name, fmt)" by (cases m) auto
  let ?vals = "foldl (extend_final_values fs key w) [] run_dirs"
  show ?case
  proof (cases "?vals = []")
    case True
    have "final_metrics fs run_dirs w ms res g = (Inr out, g')"
      using Cons.prems(1) unfolding m final_metrics_skip [OF True] .
    then show ?thesis using Cons.IH Cons.prems(2) by blast
  next
    case False
    obtain lo hi g1 where b: "bootstrap_ci g ?vals 1000 (95 / 100) = (Inr (lo, hi), g1)"
      by (rule bootstrap_ci_default_cases)
    let ?entry = "Flat \<lparr> fin_mean = np_mean ?vals, fin_std = np_std ?vals,
                             fin_ci_lower = lo, fin_ci_upper = hi,
                             fin_format = fmt, fin_n_runs = length run_dirs \<rparr>"
    let ?res1 = "AList.update name ?entry res"
    have "final_metrics fs run_dirs w ms ?res1 g1 = (Inr out, g')"
      using Cons.prems(1) unfolding m final_metrics_data [OF refl False b] .
    moreover have "\<forall>d \<in> snd ` set ?res1. \<exists>r. d = Flat r"
    proof
      fix d assume "d \<in> snd ` set ?res1"
      then obtain k where "(k, d) \<in> set ?res1" by auto
      then have "(k, d) = (name, ?entry) \<or> (k, d) \<in> set res"
        using set_update_subset [of name ?entry res] by auto
      then show "\<exists>r. d = Flat r"
        using Cons.prems(2) by force
    qed
    ultimately show ?thesis using Cons.IH by blast
  qed
qed

lemma all_flat_aware:
  assumes "res \<noteq> []" "\<forall>d \<in> snd ` set res. \<exists>r. d = Flat r"
  shows "is_curriculum_aware res"
proof -
  obtain x xs where res: "res = x # xs" using assms(1) by (cases res) auto
  then obtain r where "snd x = Flat r" using assms(2) by auto
  then show ?thesis by (simp add: is_curriculum_aware_def res)
qed

lemma main_summary:
  assumes "main fs run_dirs stage_window g = (Inr (Summary res flag), g')"
  shows "analyze_curriculum_aware fs (valid_dirs fs run_dirs) stage_window g = (Inr res, g')
         \<and> res \<noteq> [] \<and> flag = is_curriculum_aware res"
proof -
  obtain r g1 where an:
    "analyze_curriculum_aware fs (valid_dirs fs run_dirs) stage_window g = (r, g1)"
    by (cases "analyze_curriculum_aware fs (valid_dirs fs run_dirs) stage_window g")
  show ?thesis
    using assms unfolding main_def Let_def an
    by (cases r) (auto split: if_splits)
qed

lemma staged_metrics_step:
  assumes "foldl (collect_run fs key ranges w) [] run_dirs = sp"
    and "stage_results fs run_dirs key fmt ranges w sp (sort (map fst sp)) [] g = (Inr d, g1)"
  shows "staged_metrics fs run_dirs ranges w ((key, name, fmt) # ms) res g
           = staged_metrics fs run_dirs ranges w ms (AList.update name (Staged d) res) g1"
  by (subst staged_metrics.simps) (simp only: assms Let_def prod.case sum.case)

lemma staged_metrics_error:
  assumes "foldl (collect_run fs key ranges w) [] run_dirs = sp"
    and "stage_results fs run_dirs key fmt ranges w sp (sort (map fst sp)) [] g = (Inl e, g1)"
  shows "staged_metrics fs run_dirs ranges w ((key, name, fmt) # ms) res g = (Inl e, g1)"
  by (subst staged_metrics.simps) (simp only: assms Let_def prod.case sum.case)

lemma collect_run_no_data:
  assumes "snd (load_csv_data fs run_dir (key @ ''.csv'')) = []"
  shows "collect_run fs key ranges w sp run_dir = sp"
  using assms by (cases "load_csv_data fs run_dir (key @ ''.csv'')") (simp add: collect_run_def)

lemma collect_no_data:
  assumes "\<forall>run_dir \<in> set run_dirs. snd (load_csv_data fs run_dir (key @ ''.csv'')) = []"
  shows "foldl (collect_run fs key ranges w) sp run_dirs = sp"
  using assms by (induction run_dirs arbitrary: sp) (simp_all add: collect_run_no_data)

lemma extend_final_values_no_data:
  assumes "snd (load_csv_data fs run_dir (key @ ''.csv'')) = []"
  shows "extend_final_values fs key w acc run_dir = acc"
  using assms
  by (cases "load_csv_data fs run_dir (key @ ''.csv'')") (simp add: extend_final_values_def)

lemma final_values_no_data:
  assumes "\<forall>run_dir \<in> set run_dirs. snd (load_csv_data fs run_dir (key @ ''.csv'')) = []"
  shows "foldl (extend_final_values fs key w) acc run_dirs = acc"
  using assms by (induction run_dirs arbitrary: acc) (simp_all add: extend_final_values_no_data)

lemma extend_final_means_no_data:
  assumes "snd (load_csv_data fs run_dir (key @ ''.csv'')) = []"
  shows "extend_final_means fs key w acc run_dir = acc"
  using assms
  by (cases "load_csv_data fs run_dir (key @ ''.csv'')") (simp add: extend_final_means_def)

lemma final_means_no_data:
  assumes "\<forall>run_dir \<in> set run_dirs. snd (load_csv_data fs run_dir (key @ ''.csv'')) = []"
  shows "foldl (extend_final_means fs key w) acc run_dirs = acc"
  using assms by (induction run_dirs arbitrary: acc) (simp_all add: extend_final_means_no_data)


lemma runs_metrics_skip:
  assumes "foldl (extend_final_means fs key w) [] run_dirs = []"
  shows "runs_metrics fs run_dirs w ((key, name, fmt) # ms) res g
           = runs_metrics fs run_dirs w ms res g"
  by (subst runs_metrics.simps) (simp only: assms Let_def if_False not_True_eq_False simp_thms)

lemma runs_metrics_data:
  assumes "foldl (extend_final_means fs key w) [] run_dirs = vals" "vals \<noteq> []"
    and "(if length vals > 1 then bootstrap_ci g vals 1000 (95 / 100)
          else single_run_final_ci fs run_dirs key w g) = (Inr (lo, hi), g1)"
  shows "runs_metrics fs run_dirs w ((key, name, fmt) # ms) res g
           = runs_metrics fs run_dirs w ms
               (AList.update name
                  (Flat \<lparr> fin_mean = np_mean vals,
                          fin_std = (if length vals > 1 then np_std vals else 0),
                          fin_ci_lower = lo, fin_ci_upper = hi,
                          fin_format = fmt, fin_n_runs = length vals \<rparr>) res) g1"
  by (subst runs_metrics.simps)
     (simp only: assms Let_def if_True simp_thms prod.case sum.case)

lemma stage_results_step:
  assumes "map_of sp k = Some vs" "vs \<noteq> []"
    and "(if length vs > 1 then bootstrap_ci g vs 1000 (95 / 100)
          else single_run_ci fs run_dirs key ranges w k g) = (Inr (lo, hi), g1)"
    and "map_of ranges k = Some r"
  shows "stage_results fs run_dirs key fmt ranges w sp (k # rest) acc g
           = stage_results fs run_dirs key fmt ranges w sp rest
               (AList.update k
                  \<lparr> res_mean = np_mean vs,
                    res_std = (if length vs > 1 then np_std vs else 0),
                    res_ci_lower = lo, res_ci_upper = hi, res_format = fmt,
                    res_n_runs = length vs, res_step_range = r \<rparr> acc) g1"
  by (subst stage_results.simps)
     (simp only: assms option.case if_True simp_thms prod.case sum.case)

lemma stage_results_skip:
  assumes "map_of sp k = Some []"
  shows "stage_results fs run_dirs key fmt ranges w sp (k # rest) acc g
           = stage_results fs run_dirs key fmt ranges w sp rest acc g"
  by (subst stage_results.simps)
     (simp only: assms option.case if_False simp_thms not_True_eq_False)


lemma perf_step_keys:
  "fst ` set (perf_step steps vals w d item) \<subseteq> insert (fst item) (fst ` set d)"
  by (cases item) (auto simp: perf_step_entry dom_update split: option.splits)

lemma perf_fold_keys:
  "fst ` set (foldl (perf_step steps vals w) d ranges) \<subseteq> fst ` set d \<union> fst ` set ranges"
proof (induction ranges arbitrary: d)
  case Nil
  then show ?case by simp
next
  case (Cons item ranges)
  show ?case
    using Cons.IH [of "perf_step steps vals w d item"] perf_step_keys [of steps vals w d item]
    by auto
qed

lemma get_stage_performance_keys:
  "fst ` set (get_stage_performance steps vals ranges w) \<subseteq> fst ` set ranges"
  using perf_fold_keys [of steps vals w "[]" ranges] by (simp add: get_stage_performance_def)

lemma append_mean_keys:
  "fst ` set (foldl append_mean sp perf) \<subseteq> fst ` set sp \<union> fst ` set perf"
proof (induction perf arbitrary: sp)
  case Nil
  then show ?case by simp
next
  case (Cons item perf)
  have a: "fst ` set (append_mean sp item) \<subseteq> insert (fst item) (fst ` set sp)"
    by (cases item) (auto simp: append_mean_def dom_update)
  have b: "fst ` set (foldl append_mean (append_mean sp item) perf)
             \<subseteq> fst ` set (append_mean sp item) \<union> fst ` set perf"
    by (rule Cons.IH)
  have "fst ` set (foldl append_mean (append_mean sp item) perf)
             \<subseteq> insert (fst item) (fst ` set sp) \<union> fst ` set perf"
    using a b by blast
  then show ?case by simp
qed

lemma collect_run_keys:
  "fst ` set (collect_run fs key ranges w sp run_dir) \<subseteq> fst ` set sp \<union> fst ` set ranges"
proof -
  obtain steps vals where l: "load_csv_data fs run_dir (key @ ''.csv'') = (steps, vals)"
    by (cases "load_csv_data fs run_dir (key @ ''.csv'')")
  show ?thesis
    using append_mean_keys [of sp "get_stage_performance steps vals ranges w"]
      get_stage_performance_keys [of steps vals ranges w]
    by (auto simp: collect_run_def l)
qed

lemma collect_keys:
  "fst ` set (foldl (collect_run fs key ranges w) sp run_dirs) \<subseteq> fst ` set sp \<union> fst ` set ranges"
proof (induction run_dirs arbitrary: sp)
  case Nil
  then show ?case by simp
next
  case (Cons run_dir run_dirs)
  show ?case
    using Cons.IH [of "collect_run fs key ranges w sp run_dir"]
      collect_run_keys [of fs key ranges w sp run_dir]
    by auto
qed

lemma map_of_key:
  "k \<in> fst ` set al \<Longrightarrow> \<exists>v. map_of al k = Some v"
  by (induction al) auto

lemma single_run_ci_unfold:
  assumes "load_csv_data fs run_dir (key @ ''.csv'') = (steps, vals)"
  shows "single_run_ci fs (run_dir # rest) key ranges w k g =
     (if steps \<noteq> [] \<and> vals \<noteq> [] then
        (if map_of (get_stage_performance steps vals ranges w) k \<noteq> None then
           (case map_of ranges k of
              None \<Rightarrow> (Inl KeyError, g)
            | Some (a, b) \<Rightarrow>
                bootstrap_ci g (final_window (in_stage_values steps vals a b) w) 1000 (95 / 100))
         else (Inr (0, 0), g))
      else (Inr (0, 0), g))"
  by (simp only: single_run_ci_def list.case prod.case Let_def final_window_def assms)

lemma single_run_ci_ok:
  assumes "run_dirs \<noteq> []"
  shows "\<exists>lo hi g1. single_run_ci fs run_dirs key ranges w k g = (Inr (lo, hi), g1)"
proof -
  obtain run_dir rest where rd: "run_dirs = run_dir # rest" using assms by (cases run_dirs) auto
  obtain steps vals where l: "load_csv_data fs run_dir (key @ ''.csv'') = (steps, vals)"
    by (cases "load_csv_data fs run_dir (key @ ''.csv'')")
  note unf = single_run_ci_unfold [OF l, of rest ranges w k g]
  show ?thesis
  proof (cases "steps \<noteq> [] \<and> vals \<noteq> []")
    case False
    have "single_run_ci fs run_dirs key ranges w k g = (Inr (0, 0), g)"
      unfolding rd unf if_not_P [OF False] ..
    then show ?thesis by blast
  next
    case ne: True
    show ?thesis
    proof (cases "map_of (get_stage_performance steps vals ranges w) k \<noteq> None")
      case False
      have "single_run_ci fs run_dirs key ranges w k g = (Inr (0, 0), g)"
        unfolding rd unf if_P [OF ne] if_not_P [OF False] ..
      then show ?thesis by blast
    next
      case True
      have "k \<in> fst ` set (get_stage_performance steps vals ranges w)"
      proof (rule ccontr)
        assume "k \<notin> fst ` set (get_stage_performance steps vals ranges w)"
        then have "map_of (get_stage_performance steps vals ranges w) k = None"
          by (rule map_of_eq_None_iff [THEN iffD2])
        with True show False by (rule notE)
      qed
      then have "k \<in> fst ` set ranges" using get_stage_performance_keys by blast
      from map_of_key [OF this] obtain r where "map_of ranges k = Some r" by blast
      then obtain a b where r: "map_of ranges k = Some (a, b)" by (cases r) auto
      obtain lo hi g1 where bs:
        "bootstrap_ci g (final_window (in_stage_values steps vals a b) w) 1000 (95 / 100)
           = (Inr (lo, hi), g1)"
        by (rule bootstrap_ci_default_cases)
      have "single_run_ci fs run_dirs key ranges w k g = (Inr (lo, hi), g1)"
        unfolding rd unf if_P [OF ne] if_P [OF True] r option.case prod.case by (rule bs)
      then show ?thesis by blast
    qed
  qed
qed

lemma stage_results_ok:
  assumes "set ks \<subseteq> fst ` set sp" "fst ` set sp \<subseteq> fst ` set ranges"
    "ks \<noteq> [] \<longrightarrow> run_dirs \<noteq> []"
  shows "\<exists>d g1. stage_results fs run_dirs key fmt ranges w sp ks acc g = (Inr d, g1)"
  using assms
proof (induction ks arbitrary: acc g)
  case Nil
  show ?case by (simp only: stage_results.simps) blast
next
  case (Cons k ks)
  have rd: "run_dirs \<noteq> []" using Cons.prems(3) by simp
  have sub: "set ks \<subseteq> fst ` set sp" using Cons.prems(1) by simp
  have IH: "\<exists>d g1. stage_results fs run_dirs key fmt ranges w sp ks acc' g0 = (Inr d, g1)"
    for acc' g0
    by (rule Cons.IH [OF sub Cons.prems(2)]) (simp add: rd)
  have kin: "k \<in> fst ` set sp" using Cons.prems(1) by simp
  from map_of_key [OF kin] obtain vs where vs: "map_of sp k = Some vs" by blast
  have "k \<in> fst ` set ranges" using kin Cons.prems(2) by blast
  from map_of_key [OF this] obtain r where r: "map_of ranges k = Some r" by blast
  show ?case
  proof (cases "vs = []")
    case True
    have vs': "map_of sp k = Some []" using vs True by simp
    show ?thesis
      unfolding stage_results_skip [OF vs'] by (rule IH)
  next
    case False
    have "\<exists>lo hi g1. (if length vs > 1 then bootstrap_ci g vs 1000 (95 / 100)
          else single_run_ci fs run_dirs key ranges w k g) = (Inr (lo, hi), g1)"
    proof (cases "length vs > 1")
      case True
      obtain lo hi g1 where "bootstrap_ci g vs 1000 (95 / 100) = (Inr (lo, hi), g1)"
        by (rule bootstrap_ci_default_cases)
      then show ?thesis unfolding if_P [OF True] by blast
    next
      case F: False
      show ?thesis unfolding if_not_P [OF F] by (rule single_run_ci_ok [OF rd])
    qed
    then obtain lo hi g1 where ci:
      "(if length vs > 1 then bootstrap_ci g vs 1000 (95 / 100)
          else single_run_ci fs run_dirs key ranges w k g) = (Inr (lo, hi), g1)" by blast
    show ?thesis
      unfolding stage_results_step [OF vs False ci r] by (rule IH)
  qed
qed

lemma staged_metrics_ok:
  "\<exists>out g1. staged_metrics fs run_dirs ranges w ms res g = (Inr out, g1)"
proof (induction ms arbitrary: res g)
  case Nil
  show ?case by (simp only: staged_metrics.simps) blast
next
  case (Cons m ms)
  obtain key name fmt where m: "m = (key, name, fmt)" by (cases m) auto
  let ?sp = "foldl (collect_run fs key ranges w) [] run_dirs"
  have keys: "fst ` set ?sp \<subseteq> fst ` set ranges"
    using collect_keys [of fs key ranges w "[]" run_dirs] by simp
  have ks: "set (sort (map fst ?sp)) \<subseteq> fst ` set ?sp" by simp
  have rd: "sort (map fst ?sp) \<noteq> [] \<longrightarrow> run_dirs \<noteq> []"
    by (cases run_dirs) auto
  from stage_results_ok [OF ks keys rd, of fs key fmt w "[]" g]
  obtain d g1 where
    sr: "stage_results fs run_dirs key fmt ranges w ?sp (sort (map fst ?sp)) [] g = (Inr d, g1)"
    by blast
  show ?case
    unfolding m staged_metrics_step [OF refl sr] by (rule Cons.IH)
qed

lemma staged_metrics_lookup:
  assumes "staged_metrics fs run_dirs ranges w ms res g = (Inr out, g')"
    and "\<forall>m \<in> set ms. fst (snd m) = name \<longrightarrow>
           (\<forall>run_dir \<in> set run_dirs. snd (load_csv_data fs run_dir (fst m @ ''.csv'')) = [])"
  shows "map_of out name =
           (if name \<in> (fst \<circ> snd) ` set ms then Some (Staged []) else map_of res name)"
  using assms
proof (induction ms arbitrary: res g)
  case Nil
  then show ?case by simp
next
  case (Cons m ms)
  obtain key nm fmt where m: "m = (key, nm, fmt)" by (cases m) auto
  let ?sp = "foldl (collect_run fs key ranges w) [] run_dirs"
  obtain r g1 where
    sr: "stage_results fs run_dirs key fmt ranges w ?sp (sort (map fst ?sp)) [] g = (r, g1)"
    by (cases "stage_results fs run_dirs key fmt ranges w ?sp (sort (map fst ?sp)) [] g")
  show ?case
  proof (cases r)
    case (Inl e)
    have "staged_metrics fs run_dirs ranges w ((key, nm, fmt) # ms) res g = (Inl e, g1)"
      by (rule staged_metrics_error [OF refl]) (simp only: sr Inl)
    then show ?thesis using Cons.prems(1) by (simp only: m) simp
  next
    case (Inr d)
    have sr': "stage_results fs run_dirs key fmt ranges w ?sp (sort (map fst ?sp)) [] g = (Inr d, g1)"
      by (simp only: sr Inr)
    have rest: "staged_metrics fs run_dirs ranges w ms (AList.update nm (Staged d) res) g1
                  = (Inr out, g')"
      using Cons.prems(1) unfolding m staged_metrics_step [OF refl sr'] .
    have hyp: "\<forall>m \<in> set ms. fst (snd m) = name \<longrightarrow>
           (\<forall>run_dir \<in> set run_dirs. snd (load_csv_data fs run_dir (fst m @ ''.csv'')) = [])"
      using Cons.prems(2) by simp
    note IH = Cons.IH [OF rest hyp]
    show ?thesis
    proof (cases "nm = name")
      case False
      then show ?thesis using IH by (simp add: m update_conv')
    next
      case True
      have "\<forall>run_dir \<in> set run_dirs. snd (load_csv_data fs run_dir (key @ ''.csv'')) = []"
        using Cons.prems(2) True by (simp add: m)
      then have "?sp = []" by (rule collect_no_data)
      then have "d = []" using sr' by simp
      then show ?thesis using IH True by (simp add: m update_conv')
    qed
  qed
qed

lemma final_metrics_ok:
  "\<exists>out g1. final_metrics fs run_dirs w ms res g = (Inr out, g1)"
proof (induction ms arbitrary: res g)
  case Nil
  show ?case by (simp only: final_metrics.simps) blast
next
  case (Cons m ms)
  obtain key name fmt where m: "m = (key, name, fmt)" by (cases m) auto
  let ?vals = "foldl (extend_final_values fs key w) [] run_dirs"
  show ?case
  proof (cases "?vals = []")
    case True
    show ?thesis unfolding m final_metrics_skip [OF True] by (rule Cons.IH)
  next
    case False
    obtain lo hi g1 where b: "bootstrap_ci g ?vals 1000 (95 / 100) = (Inr (lo, hi), g1)"
      by (rule bootstrap_ci_default_cases)
    show ?thesis unfolding m final_metrics_data [OF refl False b] by (rule Cons.IH)
  qed
qed

lemma final_metrics_absent:
  assumes "final_metrics fs run_dirs w ms res g = (Inr out, g')"
    and "\<forall>m \<in> set ms. fst (snd m) = name \<longrightarrow>
           (\<forall>run_dir \<in> set run_dirs. snd (load_csv_data fs run_dir (fst m @ ''.csv'')) = [])"
    and "map_of res name = None"
  shows "map_of out name = None"
  using assms
proof (induction ms arbitrary: res g)
  case Nil
  then show ?case by simp
next
  case (Cons m ms)
  obtain key nm fmt where m: "m = (key, nm, fmt)" by (cases m) auto
  let ?vals = "foldl (extend_final_values fs key w) [] run_dirs"
  have hyp: "\<forall>m \<in> set ms. fst (snd m) = name \<longrightarrow>
           (\<forall>run_dir \<in> set run_dirs. snd (load_csv_data fs run_dir (fst m @ ''.csv'')) = [])"
    using Cons.prems(2) by simp
  show ?case
  proof (cases "?vals = []")
    case True
    have "final_metrics fs run_dirs w ms res g = (Inr out, g')"
      using Cons.prems(1) unfolding m final_metrics_skip [OF True] .
    then show ?thesis using hyp Cons.prems(3) by (rule Cons.IH)
  next
    case False
    have "nm \<noteq> name"
    proof
      assume "nm = name"
      then have "\<forall>run_dir \<in> set run_dirs. snd (load_csv_data fs run_dir (key @ ''.csv'')) = []"
        using Cons.prems(2) by (simp add: m)
      then have "?vals = []" by (rule final_values_no_data)
      then show False using False by simp
    qed
    obtain lo hi g1 where b: "bootstrap_ci g ?vals 1000 (95 / 100) = (Inr (lo, hi), g1)"
      by (rule bootstrap_ci_default_cases)
    let ?entry = "Flat \<lparr> fin_mean = np_mean ?vals, fin_std = np_std ?vals,
                             fin_ci_lower = lo, fin_ci_upper = hi,
                             fin_format = fmt, fin_n_runs = length run_dirs \<rparr>"
    have rest: "final_metrics fs run_dirs w ms (AList.update nm ?entry res) g1 = (Inr out, g')"
      using Cons.prems(1) unfolding m final_metrics_data [OF refl False b] .
    have "map_of (AList.update nm ?entry res) name = None"
      using \<open>nm \<noteq> name\<close> Cons.prems(3) by (simp add: update_conv')
    with rest hyp show ?thesis by (rule Cons.IH)
  qed
qed

lemma final_means_nonempty_run_dirs:
  "foldl (extend_final_means fs key w) [] run_dirs \<noteq> [] \<Longrightarrow> run_dirs \<noteq> []"
  by (cases run_dirs) auto

lemma single_run_final_ci_ok:
  assumes "run_dirs \<noteq> []"
  shows "\<exists>lo hi g1. single_run_final_ci fs run_dirs key w g = (Inr (lo, hi), g1)"
proof -
  obtain run_dir rest where rd: "run_dirs = run_dir # rest" using assms by (cases run_dirs) auto
  obtain steps vals where l: "load_csv_data fs run_dir (key @ ''.csv'') = (steps, vals)"
    by (cases "load_csv_data fs run_dir (key @ ''.csv'')")
  let ?fv = "if int (length vals) \<ge> w then py_slice_from vals (- w) else vals"
  have unf: "single_run_final_ci fs run_dirs key w g =
      (if vals \<noteq> [] then bootstrap_ci g ?fv 1000 (95 / 100) else (Inr (0, 0), g))"
    by (simp only: single_run_final_ci_def rd list.case l prod.case)
  show ?thesis
  proof (cases "vals \<noteq> []")
    case True
    obtain lo hi g1 where "bootstrap_ci g ?fv 1000 (95 / 100) = (Inr (lo, hi), g1)"
      by (rule bootstrap_ci_default_cases)
    then show ?thesis unfolding unf if_P [OF True] by blast
  next
    case False
    show ?thesis unfolding unf if_not_P [OF False] by blast
  qed
qed

lemma runs_metrics_ci_ok:
  assumes "vals \<noteq> []" "foldl (extend_final_means fs key w) [] run_dirs = vals"
  shows "\<exists>lo hi g1. (if length vals > 1 then bootstrap_ci g vals 1000 (95 / 100)
          else single_run_final_ci fs run_dirs key w g) = (Inr (lo, hi), g1)"
proof (cases "length vals > 1")
  case True
  obtain lo hi g1 where "bootstrap_ci g vals 1000 (95 / 100) = (Inr (lo, hi), g1)"
    by (rule bootstrap_ci_default_cases)
  then show ?thesis unfolding if_P [OF True] by blast
next
  case False
  have "run_dirs \<noteq> []"
    using assms final_means_nonempty_run_dirs [of fs key w run_dirs] by simp
  then show ?thesis unfolding if_not_P [OF False] by (rule single_run_final_ci_ok)
qed

lemma runs_metrics_ok:
  "\<exists>out g1. runs_metrics fs run_dirs w ms res g = (Inr out, g1)"
proof (induction ms arbitrary: res g)
  case Nil
  show ?case by (simp only: runs_metrics.simps) blast
next
  case (Cons m ms)
  obtain key name fmt where m: "m = (key, name, fmt)" by (cases m) auto
  let ?vals = "foldl (extend_final_means fs key w) [] run_dirs"
  show ?case
  proof (cases "?vals = []")
    case True
    show ?thesis unfolding m runs_metrics_skip [OF True] by (rule Cons.IH)
  next
    case False
    from runs_metrics_ci_ok [OF False refl, of g] obtain lo hi g1 where
      ci: "(if length ?vals > 1 then bootstrap_ci g ?vals 1000 (95 / 100)
          else single_run_final_ci fs run_dirs key w g) = (Inr (lo, hi), g1)" by blast
    show ?thesis unfolding m runs_metrics_data [OF refl False ci] by (rule Cons.IH)
  qed
qed

lemma runs_metrics_absent:
  assumes "runs_metrics fs run_dirs w ms res g = (Inr out, g')"
    and "\<forall>m \<in> set ms. fst (snd m) = name \<longrightarrow>
           (\<forall>run_dir \<in> set run_dirs. snd (load_csv_data fs run_dir (fst m @ ''.csv'')) = [])"
    and "map_of res name = None"
  shows "map_of out name = None"
  using assms
proof (induction ms arbitrary: res g)
  case Nil
  then show ?case by simp
next
  case (Cons m ms)
  obtain key nm fmt where m: "m = (key, nm, fmt)" by (cases m) auto
  let ?vals = "foldl (extend_final_means fs key w) [] run_dirs"
  have hyp: "\<forall>m \<in> set ms. fst (snd m) = name \<longrightarrow>
           (\<forall>run_dir \<in> set run_dirs. snd (load_csv_data fs run_dir (fst m @ ''.csv'')) = [])"
    using Cons.prems(2) by simp
  show ?case
  proof (cases "?vals = []")
    case True
    have "runs_metrics fs run_dirs w ms res g = (Inr out, g')"
      using Cons.prems(1) unfolding m runs_metrics_skip [OF True] .
    then show ?thesis using hyp Cons.prems(3) by (rule Cons.IH)
  next
    case False
    have "nm \<noteq> name"
    proof
      assume "nm = name"
      then have "\<forall>run_dir \<in> set run_dirs. snd (load_csv_data fs run_dir (key @ ''.csv'')) = []"
        using Cons.prems(2) by (simp add: m)
      then have "?vals = []" by (rule final_means_no_data)
      then show False using False by simp
    qed
    from runs_metrics_ci_ok [OF False refl, of g] obtain lo hi g1 where
      ci: "(if length ?vals > 1 then bootstrap_ci g ?vals 1000 (95 / 100)
          else single_run_final_ci fs run_dirs key w g) = (Inr (lo, hi), g1)" by blast
    let ?entry = "Flat \<lparr> fin_mean = np_mean ?vals,
                          fin_std = (if length ?vals > 1 then np_std ?vals else 0),
                          fin_ci_lower = lo, fin_ci_upper = hi,
                          fin_format = fmt, fin_n_runs = length ?vals \<rparr>"
    have rest: "runs_metrics fs run_dirs w ms (AList.update nm ?entry res) g1 = (Inr out, g')"
      using Cons.prems(1) unfolding m runs_metrics_data [OF refl False ci] .
    have "map_of (AList.update nm ?entry res) name = None"
      using \<open>nm \<noteq> name\<close> Cons.prems(3) by (simp add: update_conv')
    with rest hyp show ?thesis by (rule Cons.IH)
  qed
qed

lemma metrics_key_of_name:
  assumes "(key, name, fmt) \<in> set metrics" "m \<in> set metrics" "fst (snd m) = name"
  shows "fst m = key"
  using assms by (auto simp: metrics_def)

section \<open>Facts about the formatting\<close>

lemma round_half_even_unique:
  assumes "of_int n - 1 / 2 < y" "y < of_int n + 1 / 2"
  shows "round_half_even y = n"
proof (cases "y < of_int n")
  case True
  then have f: "\<lfloor>y\<rfloor> = n - 1" using assms by (intro floor_unique) auto
  show ?thesis using assms True by (simp add: round_half_even_def f Let_def)
next
  case False
  then have f: "\<lfloor>y\<rfloor> = n" using assms by (intro floor_unique) auto
  show ?thesis using assms False by (simp add: round_half_even_def f Let_def)
qed

lemma round_half_even_close: "\<bar>of_int (round_half_even y) - y\<bar> \<le> 1 / 2"
  unfolding round_half_even_def Let_def by (auto simp: abs_if) linarith+

lemma round_half_even_nonneg: "0 \<le> y \<Longrightarrow> 0 \<le> round_half_even y"
  unfolding round_half_even_def Let_def by auto


lemma digit_char_digit: "n < 10 \<Longrightarrow> digit_char n \<in> set ''0123456789''"
  unfolding digit_char_def by (rule nth_mem) simp

lemma show_nat_digits: "set (show_nat n) \<subseteq> set ''0123456789''"
proof (induction n rule: show_nat.induct)
  case (1 n)
  show ?case
  proof (cases "n < 10")
    case True
    then show ?thesis using digit_char_digit [of n] by (subst show_nat.simps) simp
  next
    case False
    have "n mod 10 < 10" by simp
    then have "digit_char (n mod 10) \<in> set ''0123456789''" by (rule digit_char_digit)
    then show ?thesis using 1 False by (subst show_nat.simps) simp
  qed
qed

lemma show_nat_length: "n < 10 ^ d \<Longrightarrow> 0 < d \<Longrightarrow> length (show_nat n) \<le> d"
proof (induction d arbitrary: n)
  case 0
  then show ?case by simp
next
  case (Suc d)
  show ?case
  proof (cases "n < 10")
    case True
    then show ?thesis by (subst show_nat.simps) simp
  next
    case False
    then have d: "0 < d" using Suc.prems(1) by (cases d) auto
    have "n div 10 < 10 ^ d" using Suc.prems(1) by (simp add: less_mult_imp_div_less mult.commute)
    then have "length (show_nat (n div 10)) \<le> d" using d by (rule Suc.IH)
    then show ?thesis using False by (subst show_nat.simps) simp
  qed
qed

lemma pad_left_length: "length s \<le> d \<Longrightarrow> length (pad_left d s) = d"
  by (simp add: pad_left_def)

lemma pad_left_digits:
  "set s \<subseteq> set ''0123456789'' \<Longrightarrow> set (pad_left d s) \<subseteq> set ''0123456789''"
  by (auto simp: pad_left_def)

lemma fraction_digits:
  assumes "0 < d"
  shows "length (pad_left d (show_nat (n mod 10 ^ d))) = d
         \<and> set (pad_left d (show_nat (n mod 10 ^ d))) \<subseteq> set ''0123456789''"
proof -
  have "n mod 10 ^ d < 10 ^ d" by simp
  then have "length (show_nat (n mod 10 ^ d)) \<le> d" using assms by (rule show_nat_length)
  then show ?thesis
    using pad_left_length pad_left_digits [OF show_nat_digits] by blast
qed

lemma rendered_number_close:
  "\<bar>real (nat (round_half_even (\<bar>x\<bar> * 10 ^ d))) - \<bar>x\<bar> * 10 ^ d\<bar> \<le> 1 / 2"
proof -
  have "0 \<le> round_half_even (\<bar>x\<bar> * 10 ^ d)"
    by (rule round_half_even_nonneg) simp
  then have "real (nat (round_half_even (\<bar>x\<bar> * 10 ^ d)))
               = of_int (round_half_even (\<bar>x\<bar> * 10 ^ d))"
    by simp
  then show ?thesis using round_half_even_close [of "\<bar>x\<bar> * 10 ^ d"] by simp
qed

lemma format_873:
  assumes "8725 / 100 < x" "x < 8735 / 100"
  shows "py_format_f 1 x = ''87.3''"
proof -
  have "round_half_even (\<bar>x\<bar> * 10 ^ 1) = 873"
    using assms by (intro round_half_even_unique) auto
  then show ?thesis
    using assms by (simp add: py_format_f_def show_nat.simps digit_char_def pad_left_def)
qed

lemma format_153:
  assumes "1525 / 10 < x" "x < 1535 / 10"
  shows "py_format_f 0 x = ''153''"
proof -
  have "round_half_even (\<bar>x\<bar> * 10 ^ 0) = 153"
    using assms by (intro round_half_even_unique) auto
  then show ?thesis
    using assms by (simp add: py_format_f_def show_nat.simps digit_char_def pad_left_def)
qed

lemma format_042:
  assumes "415 / 1000 < x" "x < 425 / 1000"
  shows "py_format_f 2 x = ''0.42''"
proof -
  have "round_half_even (\<bar>x\<bar> * 10 ^ 2) = 42"
    using assms by (intro round_half_even_unique) auto
  then show ?thesis
    using assms by (simp add: py_format_f_def show_nat.simps digit_char_def pad_left_def)
qed

lemma near_literal:
  fixes v a :: real
  assumes "\<bar>v - a\<bar> \<le> a / 2 ^ 53" "0 < a" "a \<le> 1000"
  shows "\<bar>v - a\<bar> \<le> 1 / 10 ^ 12"
proof -
  have "a / 2 ^ 53 \<le> 1000 / 2 ^ 53" using assms(3) by (simp add: divide_right_mono)
  also have "\<dots> \<le> (1 :: real) / 10 ^ 12" by simp
  finally show ?thesis using assms(1) by linarith
qed


lemma format_value_example_percentage:
  assumes "\<bar>v - 873 / 1000\<bar> \<le> (873 / 1000) / 2 ^ 53"
    and "\<bar>fmul v 100 - v * 100\<bar> \<le> \<bar>v * 100\<bar> / 2 ^ 53"
  shows "format_value fmul v ''percentage'' = ''87.3%''"
proof -
  have v: "\<bar>v - 873 / 1000\<bar> \<le> 1 / 10 ^ 12"
    using assms(1) by (rule near_literal) simp_all
  then have "\<bar>v * 100\<bar> \<le> 1000" by (simp add: abs_if split: if_splits)
  then have "\<bar>v * 100\<bar> / 2 ^ 53 \<le> 1000 / 2 ^ 53" by (simp add: divide_right_mono)
  also have "\<dots> \<le> (1 :: real) / 10 ^ 12" by simp
  finally have "\<bar>fmul v 100 - v * 100\<bar> \<le> 1 / 10 ^ 12" using assms(2) by linarith
  then have "8725 / 100 < fmul v 100" "fmul v 100 < 8735 / 100"
    using v by (simp_all add: abs_if split: if_splits)
  then have "py_format_f 1 (fmul v 100) = ''87.3''" by (rule format_873)
  then show ?thesis by (simp add: format_value_def)
qed

lemma format_value_example_large:
  assumes "\<bar>v - 1532 / 10\<bar> \<le> (1532 / 10) / 2 ^ 53"
  shows "format_value fmul v ''float'' = ''153''"
proof -
  have v: "\<bar>v - 1532 / 10\<bar> \<le> 1 / 10 ^ 12"
    using assms(1) by (rule near_literal) simp_all
  then have b: "1525 / 10 < v" "v < 1535 / 10" by (simp_all add: abs_if split: if_splits)
  then have "py_format_f 0 v = ''153''" by (rule format_153)
  moreover have "\<bar>v\<bar> > 100" using b by simp
  ultimately show ?thesis by (simp add: format_value_def)
qed

lemma format_value_example_small:
  assumes "\<bar>v - 42 / 100\<bar> \<le> (42 / 100) / 2 ^ 53"
  shows "format_value fmul v ''float'' = ''0.42''"
proof -
  have v: "\<bar>v - 42 / 100\<bar> \<le> 1 / 10 ^ 12"
    using assms(1) by (rule near_literal) simp_all
  then have b: "415 / 1000 < v" "v < 425 / 1000" by (simp_all add: abs_if split: if_splits)
  then have "py_format_f 2 v = ''0.42''" by (rule format_042)
  moreover have "\<not> \<bar>v\<bar> > 100" using b by simp
  ultimately show ?thesis by (simp add: format_value_def)
qed

lemma digit_val_digit_char: "n < 10 \<Longrightarrow> digit_val (digit_char n) = n"
proof -
  assume "n < 10"
  then have "n \<in> {0, 1, 2, 3, 4, 5, 6, 7, 8, 9}" by auto
  then show ?thesis by (auto simp: digit_val_def digit_char_def)
qed

lemma digit_val_less: "c \<in> set ''0123456789'' \<Longrightarrow> digit_val c < 10"
  by (auto simp: digit_val_def)

lemma digit_val_inj:
  "c \<in> set ''0123456789'' \<Longrightarrow> c' \<in> set ''0123456789'' \<Longrightarrow> digit_val c = digit_val c' \<Longrightarrow> c = c'"
  by (auto simp: digit_val_def)

lemma digit_val_zero: "c \<in> set ''0123456789'' \<Longrightarrow> digit_val c = 0 \<Longrightarrow> c = CHR ''0''"
  by (auto simp: digit_val_def)

lemma read_fold_acc:
  "foldl (\<lambda>a c. 10 * a + digit_val c) acc s
     = acc * 10 ^ length s + foldl (\<lambda>a c. 10 * a + digit_val c) 0 s"
proof (induction s arbitrary: acc)
  case Nil
  then show ?case by simp
next
  case (Cons c s)
  show ?case
    using Cons.IH [of "10 * acc + digit_val c"] Cons.IH [of "digit_val c"]
    by (simp add: algebra_simps)
qed

lemma read_nat_Nil: "read_nat [] = 0"
  by (simp add: read_nat_def)

lemma read_nat_Cons: "read_nat (c # s) = digit_val c * 10 ^ length s + read_nat s"
  using read_fold_acc [of "digit_val c" s] by (simp add: read_nat_def)

lemma read_nat_append: "read_nat (a @ b) = read_nat a * 10 ^ length b + read_nat b"
  using read_fold_acc [of "read_nat a" b] by (simp add: read_nat_def)

lemma read_nat_bound: "set s \<subseteq> set ''0123456789'' \<Longrightarrow> read_nat s < 10 ^ length s"
proof (induction s)
  case Nil
  then show ?case by (simp add: read_nat_Nil)
next
  case (Cons c s)
  have "digit_val c < 10" using Cons.prems by (intro digit_val_less) simp
  then have "digit_val c + 1 \<le> 10" by simp
  then have "(digit_val c + 1) * 10 ^ length s \<le> 10 * 10 ^ length s"
    by (rule mult_le_mono1)
  then have a: "digit_val c * 10 ^ length s + 10 ^ length s \<le> 10 * 10 ^ length s"
    by (simp add: algebra_simps)
  have b: "read_nat s < 10 ^ length s" using Cons by simp
  have "digit_val c * 10 ^ length s + read_nat s < 10 * 10 ^ length s"
    using a b by linarith
  then show ?case by (simp add: read_nat_Cons)
qed

lemma read_show_nat: "read_nat (show_nat n) = n"
proof (induction n rule: show_nat.induct)
  case (1 n)
  show ?case
  proof (cases "n < 10")
    case True
    then show ?thesis
      by (subst show_nat.simps) (simp add: read_nat_Cons read_nat_Nil digit_val_digit_char)
  next
    case False
    have "read_nat (show_nat (n div 10) @ [digit_char (n mod 10)])
            = read_nat (show_nat (n div 10)) * 10 + digit_val (digit_char (n mod 10))"
      by (simp add: read_nat_append read_nat_Cons read_nat_Nil)
    also have "\<dots> = (n div 10) * 10 + n mod 10"
      using 1 False by (simp add: digit_val_digit_char)
    also have "\<dots> = n" by simp
    finally show ?thesis using False by (subst show_nat.simps) simp
  qed
qed

lemma read_nat_zeros: "read_nat (replicate k (CHR ''0'') @ s) = read_nat s"
  by (induction k) (simp_all add: read_nat_Cons digit_val_def)

lemma read_pad_left: "read_nat (pad_left d s) = read_nat s"
  by (simp add: pad_left_def read_nat_zeros)

lemma show_nat_nonempty: "show_nat n \<noteq> []"
  by (subst show_nat.simps) simp

lemma show_nat_hd:
  "hd (show_nat n) = CHR ''0'' \<Longrightarrow> show_nat n = ''0''"
proof (induction n rule: show_nat.induct)
  case (1 n)
  show ?case
  proof (cases "n < 10")
    case True
    have eq: "show_nat n = [digit_char n]" using True by (subst show_nat.simps) simp
    then have "digit_char n = CHR ''0''" using 1(2) by simp
    then show ?thesis using eq by simp
  next
    case False
    have eq: "show_nat n = show_nat (n div 10) @ [digit_char (n mod 10)]"
      using False by (subst show_nat.simps) simp
    then have "hd (show_nat (n div 10)) = CHR ''0''"
      using 1(2) show_nat_nonempty [of "n div 10"] by simp
    then have "show_nat (n div 10) = ''0''" using 1(1) False by simp
    then have "read_nat (show_nat (n div 10)) = 0" by (simp add: read_nat_Cons read_nat_Nil digit_val_def)
    then have "n div 10 = 0" by (simp add: read_show_nat)
    then show ?thesis using False by simp
  qed
qed

lemma round_half_even_tie:
  assumes "\<bar>of_int (round_half_even y) - y\<bar> = 1 / 2"
  shows "even (round_half_even y)"
proof -
  define f where "f = \<lfloor>y\<rfloor>"
  define r where "r = y - of_int f"
  have r: "0 \<le> r" "r < 1" unfolding r_def f_def by linarith+
  have y: "y = of_int f + r" unfolding r_def by simp
  show ?thesis
  proof (cases "r < 1 / 2")
    case True
    then have "round_half_even y = f"
      unfolding round_half_even_def Let_def f_def [symmetric] r_def [symmetric] by simp
    then show ?thesis using assms True r y by simp
  next
    case False
    show ?thesis
    proof (cases "r > 1 / 2")
      case True
      then have "round_half_even y = f + 1"
        unfolding round_half_even_def Let_def f_def [symmetric] r_def [symmetric] by simp
      then show ?thesis using assms True r y by simp
    next
      case F: False
      then show ?thesis
        using False
        unfolding round_half_even_def Let_def f_def [symmetric] r_def [symmetric] by simp
    qed
  qed
qed

lemma py_format_f_is_rendering: "is_rendering d x (py_format_f d x)"
proof -
  define y where "y = \<bar>x\<bar> * 10 ^ d"
  define n where "n = nat (round_half_even y)"
  define ip where "ip = show_nat (n div 10 ^ d)"
  define fp where "fp = (if d = 0 then [] else pad_left d (show_nat (n mod 10 ^ d)))"
  have y0: "0 \<le> y" unfolding y_def by simp
  have nn: "real n = of_int (round_half_even y)"
    unfolding n_def using round_half_even_nonneg [OF y0] by simp
  have s: "py_format_f d x = (if x < 0 then ''-'' else []) @ ip @ (if d = 0 then [] else ''.'' @ fp)"
    unfolding py_format_f_def Let_def ip_def fp_def n_def y_def by simp
  have ip1: "ip \<noteq> []" unfolding ip_def by (rule show_nat_nonempty)
  have ip2: "set ip \<subseteq> set ''0123456789''" unfolding ip_def by (rule show_nat_digits)
  have ip3: "hd ip = CHR ''0'' \<longrightarrow> ip = ''0''" unfolding ip_def using show_nat_hd by blast
  have fp1: "length fp = d \<and> set fp \<subseteq> set ''0123456789''"
  proof (cases "d = 0")
    case True
    then show ?thesis unfolding fp_def by simp
  next
    case False
    then have "0 < d" by simp
    from fraction_digits [OF this, of n] show ?thesis unfolding fp_def using False by simp
  qed
  have rd: "read_nat (ip @ fp) = n"
  proof (cases "d = 0")
    case True
    then show ?thesis unfolding fp_def ip_def by (simp add: read_show_nat)
  next
    case False
    have "read_nat (ip @ fp) = read_nat ip * 10 ^ length fp + read_nat fp"
      by (rule read_nat_append)
    also have "\<dots> = (n div 10 ^ d) * 10 ^ d + n mod 10 ^ d"
      using fp1 False unfolding ip_def fp_def by (simp add: read_show_nat read_pad_left)
    also have "\<dots> = n" by (rule div_mult_mod_eq)
    finally show ?thesis .
  qed
  have close: "\<bar>real n - y\<bar> \<le> 1 / 2"
    unfolding nn by (rule round_half_even_close)
  have tie: "\<bar>real n - y\<bar> = 1 / 2 \<longrightarrow> even n"
  proof
    assume "\<bar>real n - y\<bar> = 1 / 2"
    then have "even (round_half_even y)" unfolding nn by (rule round_half_even_tie)
    then show "even n" unfolding n_def using round_half_even_nonneg [OF y0] by (simp add: even_nat_iff)
  qed
  have c: "\<bar>real (read_nat (ip @ fp)) - \<bar>x\<bar> * 10 ^ d\<bar> \<le> 1 / 2"
    using close unfolding rd y_def .
  have t: "\<bar>real (read_nat (ip @ fp)) - \<bar>x\<bar> * 10 ^ d\<bar> = 1 / 2 \<longrightarrow> even (read_nat (ip @ fp))"
    using tie unfolding rd y_def .
  show ?thesis
    unfolding is_rendering_def
    apply (rule exI [of _ ip])
    apply (rule exI [of _ fp])
    using s ip1 ip2 ip3 fp1 c t apply blast
    done
qed

lemma nearest_even_unique:
  fixes m m' :: nat and y :: real
  assumes "\<bar>real m - y\<bar> \<le> 1 / 2" "\<bar>real m - y\<bar> = 1 / 2 \<longrightarrow> even m"
    and "\<bar>real m' - y\<bar> \<le> 1 / 2" "\<bar>real m' - y\<bar> = 1 / 2 \<longrightarrow> even m'"
  shows "m = m'"
proof (rule ccontr)
  assume ne: "m \<noteq> m'"
  have "\<bar>real m - real m'\<bar> \<le> 1" using assms(1,3) by linarith
  then have "\<bar>int m - int m'\<bar> \<le> 1" by linarith
  then have d: "int m = int m' + 1 \<or> int m' = int m + 1" using ne by linarith
  then have "\<bar>real m - real m'\<bar> = 1" by auto
  then have "\<bar>real m - y\<bar> = 1 / 2" "\<bar>real m' - y\<bar> = 1 / 2" using assms(1,3) by linarith+
  then have "even m" "even m'" using assms(2,4) by simp_all
  then show False using d by presburger
qed

lemma same_length_read_inj:
  assumes "length a = length b" "set a \<subseteq> set ''0123456789''" "set b \<subseteq> set ''0123456789''"
    "read_nat a = read_nat b"
  shows "a = b"
  using assms
proof (induction a b rule: list_induct2)
  case Nil
  then show ?case by simp
next
  case (Cons c a c' b)
  let ?P = "10 ^ length a :: nat"
  have ba: "read_nat a < ?P" using Cons.prems(1) by (intro read_nat_bound) simp
  have bb: "read_nat b < ?P" using Cons.prems(2) Cons.hyps by (intro read_nat_bound [of b, unfolded Cons.hyps [symmetric]]) simp
  have eq: "digit_val c * ?P + read_nat a = digit_val c' * ?P + read_nat b"
    using Cons.prems(3) Cons.hyps by (simp add: read_nat_Cons)
  have "(digit_val c * ?P + read_nat a) div ?P = digit_val c" using ba by simp
  moreover have "(digit_val c' * ?P + read_nat b) div ?P = digit_val c'" using bb by simp
  ultimately have dv: "digit_val c = digit_val c'" using eq by simp
  then have "read_nat a = read_nat b" using eq by simp
  then have "a = b" using Cons.IH Cons.prems by simp
  moreover have "c = c'" using dv Cons.prems(1,2) by (intro digit_val_inj) simp_all
  ultimately show ?case by simp
qed

lemma canonical_lower:
  assumes "ip \<noteq> []" "set ip \<subseteq> set ''0123456789''" "hd ip \<noteq> CHR ''0''"
  shows "10 ^ (length ip - 1) \<le> read_nat ip"
proof -
  obtain c s where ip: "ip = c # s" using assms(1) by (cases ip) auto
  have "c \<in> set ''0123456789''" using assms(2) unfolding ip by simp
  then have "digit_val c \<noteq> 0" using assms(3) digit_val_zero [of c] unfolding ip by auto
  then have "1 \<le> digit_val c" by simp
  then have "1 * 10 ^ length s \<le> digit_val c * 10 ^ length s" by (rule mult_le_mono1)
  then have "10 ^ length s \<le> digit_val c * 10 ^ length s + read_nat s" by linarith
  then show ?thesis unfolding ip read_nat_Cons by simp
qed

lemma canonical_zero:
  assumes "ip \<noteq> []" "set ip \<subseteq> set ''0123456789''" "hd ip = CHR ''0'' \<longrightarrow> ip = ''0''"
    "read_nat ip = 0"
  shows "ip = ''0''"
proof (cases "hd ip = CHR ''0''")
  case True
  then show ?thesis using assms(3) by simp
next
  case False
  have "10 ^ (length ip - 1) \<le> read_nat ip" by (rule canonical_lower [OF assms(1,2) False])
  then show ?thesis using assms(4) by simp
qed

lemma canonical_inj:
  assumes "ip \<noteq> []" "set ip \<subseteq> set ''0123456789''" "hd ip = CHR ''0'' \<longrightarrow> ip = ''0''"
    and "jp \<noteq> []" "set jp \<subseteq> set ''0123456789''" "hd jp = CHR ''0'' \<longrightarrow> jp = ''0''"
    and "read_nat ip = read_nat jp"
  shows "ip = jp"
proof (cases "read_nat ip = 0")
  case True
  then have "ip = ''0''" by (rule canonical_zero [OF assms(1,2,3)])
  moreover have "jp = ''0''" using True assms(7) by (intro canonical_zero [OF assms(4,5,6)]) simp
  ultimately show ?thesis by simp
next
  case False
  have hi: "hd ip \<noteq> CHR ''0''"
  proof
    assume "hd ip = CHR ''0''"
    then have "ip = ''0''" using assms(3) by simp
    then have "read_nat ip = 0" by (simp add: read_nat_Cons read_nat_Nil digit_val_def)
    then show False using False by simp
  qed
  have hj: "hd jp \<noteq> CHR ''0''"
  proof
    assume "hd jp = CHR ''0''"
    then have "jp = ''0''" using assms(6) by simp
    then have "read_nat jp = 0" by (simp add: read_nat_Cons read_nat_Nil digit_val_def)
    then show False using False assms(7) by simp
  qed
  have li: "10 ^ (length ip - 1) \<le> read_nat ip" by (rule canonical_lower [OF assms(1,2) hi])
  have lj: "10 ^ (length jp - 1) \<le> read_nat jp" by (rule canonical_lower [OF assms(4,5) hj])
  have ui: "read_nat ip < 10 ^ length ip" by (rule read_nat_bound [OF assms(2)])
  have uj: "read_nat jp < 10 ^ length jp" by (rule read_nat_bound [OF assms(5)])
  have "(10 :: nat) ^ (length ip - 1) < 10 ^ length jp" using li uj assms(7) by linarith
  then have a: "length ip - 1 < length jp" by simp
  have "(10 :: nat) ^ (length jp - 1) < 10 ^ length ip" using lj ui assms(7) by linarith
  then have b: "length jp - 1 < length ip" by simp
  have "length ip = length jp" using a b assms(1,4) by (cases ip; cases jp) auto
  then show ?thesis using assms(2,5,7) by (rule same_length_read_inj)
qed

lemma is_rendering_unique:
  assumes "is_rendering d x s" "is_rendering d x t"
  shows "s = t"
proof -
  from assms(1) obtain ip fp where s:
    "s = (if x < 0 then ''-'' else []) @ ip @ (if d = 0 then [] else ''.'' @ fp)"
    "ip \<noteq> []" "set ip \<subseteq> set ''0123456789''" "hd ip = CHR ''0'' \<longrightarrow> ip = ''0''"
    "length fp = d" "set fp \<subseteq> set ''0123456789''"
    "\<bar>real (read_nat (ip @ fp)) - \<bar>x\<bar> * 10 ^ d\<bar> \<le> 1 / 2"
    "\<bar>real (read_nat (ip @ fp)) - \<bar>x\<bar> * 10 ^ d\<bar> = 1 / 2 \<longrightarrow> even (read_nat (ip @ fp))"
    unfolding is_rendering_def by blast
  from assms(2) obtain jp gp where t:
    "t = (if x < 0 then ''-'' else []) @ jp @ (if d = 0 then [] else ''.'' @ gp)"
    "jp \<noteq> []" "set jp \<subseteq> set ''0123456789''" "hd jp = CHR ''0'' \<longrightarrow> jp = ''0''"
    "length gp = d" "set gp \<subseteq> set ''0123456789''"
    "\<bar>real (read_nat (jp @ gp)) - \<bar>x\<bar> * 10 ^ d\<bar> \<le> 1 / 2"
    "\<bar>real (read_nat (jp @ gp)) - \<bar>x\<bar> * 10 ^ d\<bar> = 1 / 2 \<longrightarrow> even (read_nat (jp @ gp))"
    unfolding is_rendering_def by blast
  have m: "read_nat (ip @ fp) = read_nat (jp @ gp)"
    by (rule nearest_even_unique [OF s(7,8) t(7,8)])
  have bf: "read_nat fp < 10 ^ d" using read_nat_bound [OF s(6)] s(5) by simp
  have bg: "read_nat gp < 10 ^ d" using read_nat_bound [OF t(6)] t(5) by simp
  have eq: "read_nat ip * 10 ^ d + read_nat fp = read_nat jp * 10 ^ d + read_nat gp"
    using m s(5) t(5) by (simp add: read_nat_append)
  have "(read_nat ip * 10 ^ d + read_nat fp) div 10 ^ d = read_nat ip" using bf by simp
  moreover have "(read_nat jp * 10 ^ d + read_nat gp) div 10 ^ d = read_nat jp" using bg by simp
  ultimately have i: "read_nat ip = read_nat jp" using eq by simp
  then have f: "read_nat fp = read_nat gp" using eq by simp
  have "ip = jp" by (rule canonical_inj [OF s(2,3,4) t(2,3,4) i])
  moreover have "fp = gp"
    using s(5) t(5) by (intro same_length_read_inj [OF _ s(6) t(6) f]) simp
  ultimately show ?thesis using s(1) t(1) by simp
qed

lemma is_rendering_iff: "is_rendering d x s \<longleftrightarrow> s = py_format_f d x"
  using is_rendering_unique py_format_f_is_rendering by blast

section \<open>Claims about the segmenter: stage ids and the index of a change\<close>

text \<open>
  C8 (what the code does at a failing input). The segmenter keys an interval by
  \<^verbatim>\<open>int(stage_val)\<close>, which truncates toward zero, not by the value rounded to the nearest
  integer. On the stage signal that the exporter writes for a run that moves from stage 0
  to stage 1 at the second sample (smoothed with the default factor 0.9) the values rise
  toward 1 without reaching it: the last three round to 1, yet every value truncates to 0
  and the output has the single key 0. Likewise the single value 0.75 is keyed 0, the
  rounding of no value of the input.
\<close>

theorem C8_smoothed_signal_keyed_by_truncation:
  "exp_smooth [0, 1, 1, 1, 1, 1, 1, 1, 1, 1] (9 / 10)
     = [0, 1 / 10, 19 / 100, 271 / 1000, 3439 / 10000, 40951 / 100000, 468559 / 1000000,
        5217031 / 10000000, 56953279 / 100000000, 612579511 / 1000000000]
   \<and> map round (exp_smooth [0, 1, 1, 1, 1, 1, 1, 1, 1, 1] (9 / 10))
       = [0, 0, 0, 0, 0, 0, 0, 1, 1, 1 :: int]
   \<and> find_stage_transitions [0, 1, 2, 3, 4, 5, 6, 7, 8, 9]
        (exp_smooth [0, 1, 1, 1, 1, 1, 1, 1, 1, 1] (9 / 10)) = [(0, (0, 9))]
   \<and> find_stage_transitions [0] [3 / 4] = [(0, (0, 0))]
   \<and> round (3 / 4 :: real) = (1 :: int)"
proof -
  have s: "exp_smooth [0, 1, 1, 1, 1, 1, 1, 1, 1, 1] (9 / 10)
     = [0, 1 / 10, 19 / 100, 271 / 1000, 3439 / 10000, 40951 / 100000, 468559 / 1000000,
        5217031 / 10000000, 56953279 / 100000000, 612579511 / 1000000000]"
    by (simp add: exp_smooth_def Let_def)
  show ?thesis
    unfolding s
    by (simp add: find_stage_transitions_def scan_init_def scan_step_def py_int_def round_def)
qed

text \<open>
  C10. An iteration \<open>i\<close> of the scan at which the guard
  \<^verbatim>\<open>stage_num != current_stage\<close> holds has \<open>i \<ge> 1\<close>, since the state before iteration 0
  holds the truncation of the first value; so \<^verbatim>\<open>stage_steps[i-1]\<close> is read in bounds, the
  \<^verbatim>\<open>else step\<close> branch for \<open>i = 0\<close> is never taken, and the interval is closed at the
  previous step.
\<close>

theorem C10_no_change_at_index_zero:
  assumes "i < length (zip stage_steps stage_values)"
    and "py_int (stage_values ! i) \<noteq> current_stage (scan_prefix stage_steps stage_values i)"
  shows "1 \<le> i \<and> i - 1 < length stage_steps
     \<and> scan_prefix stage_steps stage_values (Suc i) =
        \<lparr> stage_ranges = AList.update (current_stage (scan_prefix stage_steps stage_values i))
             (stage_start (scan_prefix stage_steps stage_values i), stage_steps ! (i - 1))
             (stage_ranges (scan_prefix stage_steps stage_values i)),
          current_stage = py_int (stage_values ! i),
          stage_start = stage_steps ! i \<rparr>"
proof -
  have pos: "0 < i"
  proof (rule ccontr)
    assume "\<not> 0 < i"
    then have i0: "i = 0" by simp
    from assms(1) have "stage_values \<noteq> []" by auto
    then have "stage_values ! 0 = hd stage_values" by (simp add: hd_conv_nth)
    then show False using assms(2) by (simp add: i0 scan_prefix_def scan_init_def)
  qed
  moreover have "i - 1 < length stage_steps" using assms(1) by auto
  moreover have "scan_prefix stage_steps stage_values (Suc i) =
        \<lparr> stage_ranges = AList.update (current_stage (scan_prefix stage_steps stage_values i))
             (stage_start (scan_prefix stage_steps stage_values i), stage_steps ! (i - 1))
             (stage_ranges (scan_prefix stage_steps stage_values i)),
          current_stage = py_int (stage_values ! i),
          stage_start = stage_steps ! i \<rparr>"
    using assms(2) pos by (simp add: scan_prefix_Suc [OF assms(1)] scan_step_def Let_def)
  ultimately show ?thesis by simp
qed

theorem C10_no_change_at_index_zero_witness:
  "2 < length (zip [10, 20, 30 :: int] [0, 0, 1 :: real])
   \<and> py_int ([0, 0, 1] ! 2) \<noteq> current_stage (scan_prefix [10, 20, 30] [0, 0, 1] 2)
   \<and> stage_ranges (scan_prefix [10, 20, 30] [0, 0, 1] (Suc 2)) = [(0, (10, 20))]"
  using C10_no_change_at_index_zero [of 2 "[10, 20, 30]" "[0, 0, 1]"]
  by (simp add: scan_prefix_def scan_init_def scan_step_def py_int_def)

section \<open>Claims about the segmenter: the intervals of a signal without revisits\<close>

text \<open>
  C4 (on signals that round unambiguously). Take a non-empty stage signal with as many
  steps as values, in which every value has a fractional part below one half in
  magnitude; whose steps are non-decreasing, with samples that share a step sharing the
  rounded stage id; and whose rounded values form \<open>k\<close> runs of distinct ids (no id comes
  back after another one). Then the segmenter returns exactly those \<open>k\<close> ids as keys, in
  order of appearance; any two of its intervals have no step in common; every observed
  step lies in exactly one interval; the first interval starts at the first observed
  step and the last one ends at the last observed step.
\<close>

theorem C4_runs_partition_observed_steps:
  assumes "stage_steps \<noteq> []" "length stage_steps = length stage_values"
    and "\<forall>v \<in> set stage_values. frac \<bar>v\<bar> < 1 / 2"
    and "steps_respect_rounded_stages stage_steps stage_values"
    and "distinct (remdups_adj (map round stage_values))"
  shows "map fst (find_stage_transitions stage_steps stage_values)
           = remdups_adj (map round stage_values)
    \<and> (\<forall>x \<in> set (find_stage_transitions stage_steps stage_values).
         \<forall>y \<in> set (find_stage_transitions stage_steps stage_values).
           x \<noteq> y \<longrightarrow> \<not> (\<exists>s. in_seg s x \<and> in_seg s y))
    \<and> (\<forall>s \<in> set stage_steps.
         \<exists>!x. x \<in> set (find_stage_transitions stage_steps stage_values) \<and> in_seg s x)
    \<and> fst (snd (hd (find_stage_transitions stage_steps stage_values))) = hd stage_steps
    \<and> snd (snd (last (find_stage_transitions stage_steps stage_values))) = last stage_steps"
proof -
  have eq: "map py_int stage_values = map round stage_values"
    using assms(3) by (intro map_cong refl py_int_round) simp
  have a: "steps_respect_stages stage_steps stage_values"
    using assms(4) by (simp add: steps_respect_stages_def steps_respect_rounded_stages_def eq)
  have b: "distinct (remdups_adj (map py_int stage_values))"
    using assms(5) by (simp only: eq)
  show ?thesis
    using find_stage_transitions_partition [OF assms(1,2) a b] unfolding eq .
qed

theorem C4_runs_partition_witness:
  "frac \<bar>0 :: real\<bar> < 1 / 2 \<and> frac \<bar>1 / 4 :: real\<bar> < 1 / 2 \<and> frac \<bar>1 :: real\<bar> < 1 / 2
   \<and> frac \<bar>5 / 4 :: real\<bar> < 1 / 2 \<and> frac \<bar>3 :: real\<bar> < 1 / 2
   \<and> steps_respect_rounded_stages [0, 1, 2, 2, 5] [0, 1 / 4, 1, 5 / 4, 3]
   \<and> distinct (remdups_adj (map round [0, 1 / 4, 1, 5 / 4, 3 :: real]))
   \<and> find_stage_transitions [0, 1, 2, 2, 5] [0, 1 / 4, 1, 5 / 4, 3]
       = [(0, (0, 1)), (1, (2, 2)), (3, (5, 5))]
   \<and> remdups_adj (map round [0, 1 / 4, 1, 5 / 4, 3 :: real]) = [0, 1, 3]"
proof -
  have h3: "\<forall>v \<in> set [0, 1 / 4, 1, 5 / 4, 3 :: real]. frac \<bar>v\<bar> < 1 / 2"
    by (simp add: frac_def)
  have h4: "steps_respect_rounded_stages [0, 1, 2, 2, 5] [0, 1 / 4, 1, 5 / 4, 3]"
    by (simp add: steps_respect_rounded_stages_def same_step_same_stage_def round_def)
  have h5: "distinct (remdups_adj (map round [0, 1 / 4, 1, 5 / 4, 3 :: real]))"
    by (simp add: round_def)
  have r: "find_stage_transitions [0, 1, 2, 2, 5] [0, 1 / 4, 1, 5 / 4, 3]
       = [(0, (0, 1)), (1, (2, 2)), (3, (5, 5))]"
    by (simp add: find_stage_transitions_def scan_init_def scan_step_def py_int_def)
  show ?thesis
    using C4_runs_partition_observed_steps [OF _ _ h3 h4 h5] h3 h4 h5 r by (simp add: round_def)
qed

text \<open>
  C4 as stated fails when a step value is shared across a stage change: the integer-valued
  signal \<open>0, 0, 1, 1\<close> logged at the steps \<open>0, 1, 1, 2\<close> yields the intervals \<open>[0, 1]\<close>
  and \<open>[1, 2]\<close>, which both contain the observed step 1, because an interval is closed at
  the step before the change and the next one opens at the step of the change.
\<close>

theorem C4_shared_step_counterexample:
  "find_stage_transitions [0, 1, 1, 2] [0, 0, 1, 1] = [(0, (0, 1)), (1, (1, 2))]
   \<and> in_seg 1 (0, (0, 1)) \<and> in_seg 1 (1, (1, 2))"
  by (simp add: find_stage_transitions_def scan_init_def scan_step_def py_int_def in_seg_def)

section \<open>Claims about the per-stage aggregate\<close>

text \<open>
  C5 (as the code has it). Let the stage dictionary have the interval
  \<open>[start_step, end_step]\<close> under \<open>stage_num\<close>. For a window of at least 1 and more than
  \<open>stage_window\<close> samples in the interval, the entry of the stage holds the mean, std, min
  and max of exactly the last \<open>stage_window\<close> in-interval values (the suffix of that
  length); with at least one and at most \<open>stage_window\<close> samples, and also for a window of
  0, it holds them over all in-interval values.
\<close>

theorem C5_trailing_window:
  assumes "distinct (map fst ranges)" and "(stage_num, (start_step, end_step)) \<in> set ranges"
  shows "(1 \<le> stage_window \<and> int (length (in_stage_values steps vals start_step end_step)) > stage_window \<longrightarrow>
           (\<exists>tail. suffix tail (in_stage_values steps vals start_step end_step)
                \<and> int (length tail) = stage_window
                \<and> map_of (get_stage_performance steps vals ranges stage_window) stage_num =
                    Some \<lparr> perf_mean = np_mean tail, perf_std = np_std tail,
                           perf_min = np_min tail, perf_max = np_max tail,
                           n_steps = length (in_stage_values steps vals start_step end_step),
                           step_range = (start_step, end_step) \<rparr>))
       \<and> (in_stage_values steps vals start_step end_step \<noteq> []
            \<and> int (length (in_stage_values steps vals start_step end_step)) \<le> stage_window \<longrightarrow>
           map_of (get_stage_performance steps vals ranges stage_window) stage_num =
             Some \<lparr> perf_mean = np_mean (in_stage_values steps vals start_step end_step),
                    perf_std = np_std (in_stage_values steps vals start_step end_step),
                    perf_min = np_min (in_stage_values steps vals start_step end_step),
                    perf_max = np_max (in_stage_values steps vals start_step end_step),
                    n_steps = length (in_stage_values steps vals start_step end_step),
                    step_range = (start_step, end_step) \<rparr>)
       \<and> (in_stage_values steps vals start_step end_step \<noteq> [] \<and> stage_window = 0 \<longrightarrow>
           map_of (get_stage_performance steps vals ranges stage_window) stage_num =
             Some \<lparr> perf_mean = np_mean (in_stage_values steps vals start_step end_step),
                    perf_std = np_std (in_stage_values steps vals start_step end_step),
                    perf_min = np_min (in_stage_values steps vals start_step end_step),
                    perf_max = np_max (in_stage_values steps vals start_step end_step),
                    n_steps = length (in_stage_values steps vals start_step end_step),
                    step_range = (start_step, end_step) \<rparr>)"
proof (intro conjI impI)
  let ?sv = "in_stage_values steps vals start_step end_step"
  note look = get_stage_performance_lookup [OF assms, of steps vals stage_window]
  {
    assume a: "1 \<le> stage_window \<and> int (length ?sv) > stage_window"
    let ?tail = "final_window ?sv stage_window"
    have tl: "suffix ?tail ?sv \<and> int (length ?tail) = stage_window"
      using a by (intro final_window_long) auto
    then have "?tail \<noteq> []" "?sv \<noteq> []" using a by auto
    then have "map_of (get_stage_performance steps vals ranges stage_window) stage_num =
                    Some \<lparr> perf_mean = np_mean ?tail, perf_std = np_std ?tail,
                           perf_min = np_min ?tail, perf_max = np_max ?tail,
                           n_steps = length ?sv,
                           step_range = (start_step, end_step) \<rparr>"
      by (simp add: look stage_entry_def Let_def)
    then show "\<exists>tail. suffix tail ?sv \<and> int (length tail) = stage_window
                \<and> map_of (get_stage_performance steps vals ranges stage_window) stage_num =
                    Some \<lparr> perf_mean = np_mean tail, perf_std = np_std tail,
                           perf_min = np_min tail, perf_max = np_max tail,
                           n_steps = length ?sv,
                           step_range = (start_step, end_step) \<rparr>"
      using tl by blast
  }
  {
    assume a: "?sv \<noteq> [] \<and> int (length ?sv) \<le> stage_window"
    then have "final_window ?sv stage_window = ?sv" by (simp add: final_window_short)
    then show "map_of (get_stage_performance steps vals ranges stage_window) stage_num =
             Some \<lparr> perf_mean = np_mean ?sv, perf_std = np_std ?sv,
                    perf_min = np_min ?sv, perf_max = np_max ?sv,
                    n_steps = length ?sv, step_range = (start_step, end_step) \<rparr>"
      using a by (simp add: look stage_entry_def Let_def)
  }
  {
    assume a: "?sv \<noteq> [] \<and> stage_window = 0"
    then show "map_of (get_stage_performance steps vals ranges stage_window) stage_num =
             Some \<lparr> perf_mean = np_mean ?sv, perf_std = np_std ?sv,
                    perf_min = np_min ?sv, perf_max = np_max ?sv,
                    n_steps = length ?sv, step_range = (start_step, end_step) \<rparr>"
      using look by (simp add: stage_entry_def Let_def final_window_zero)
  }
qed


theorem C5_trailing_window_witness:
  "distinct (map fst [(0 :: int, (0 :: int, 3 :: int))])
   \<and> (0, (0, 3)) \<in> set [(0 :: int, (0 :: int, 3 :: int))]
   \<and> int (length (in_stage_values [0, 1, 2, 3] [10, 20, 3, 5] 0 3)) > 2
   \<and> in_stage_values [0, 1, 2, 3] [10, 20, 3, 5] 0 3 \<noteq> []
   \<and> int (length (in_stage_values [0, 1, 2, 3] [10, 20, 3, 5] 0 3)) \<le> 4
   \<and> suffix [3, 5] (in_stage_values [0, 1, 2, 3] [10, 20, 3, 5] 0 3)
   \<and> map_of (get_stage_performance [0, 1, 2, 3] [10, 20, 3, 5] [(0, (0, 3))] 2) 0 =
        Some \<lparr> perf_mean = 4, perf_std = 1, perf_min = 3, perf_max = 5,
               n_steps = 4, step_range = (0, 3) \<rparr>
   \<and> map (perf_mean \<circ> snd) (get_stage_performance [0, 1, 2, 3] [10, 20, 3, 5] [(0, (0, 3))] 4) =
        [19 / 2]"
  using C5_trailing_window [of "[(0, (0, 3))]" 0 0 3 2 "[0, 1, 2, 3]" "[10, 20, 3, 5]"]
    C5_trailing_window [of "[(0, (0, 3))]" 0 0 3 4 "[0, 1, 2, 3]" "[10, 20, 3, 5]"]
  by (simp add: get_stage_performance_def perf_step_def in_stage_values_def final_window_def
      py_slice_from_def np_mean_def np_std_def np_min_def np_max_def Let_def suffix_def)

text \<open>
  C5 as stated fails for a window of 0: the interval holds two samples, more than the
  window, and the aggregate is taken over both of them (mean 2, min 1, max 3), not over
  the last 0 samples, because \<^verbatim>\<open>stage_values[-0:]\<close> is the whole list.
\<close>

theorem C5_zero_window_counterexample:
  "int (length (in_stage_values [0, 1] [1, 3] 0 1)) > 0
   \<and> get_stage_performance [0, 1] [1, 3] [(0, (0, 1))] 0 =
        [(0, \<lparr> perf_mean = 2, perf_std = 1, perf_min = 1, perf_max = 3,
                n_steps = 2, step_range = (0, 1) \<rparr>)]
   \<and> np_mean [1, 3] = 2"
  by (simp add: get_stage_performance_def perf_step_def in_stage_values_def final_window_def
      py_slice_from_def np_mean_def np_std_def np_min_def np_max_def Let_def)

section \<open>Claims about the bootstrap estimator\<close>

text \<open>
  C6. On a list of fewer than two values \<^verbatim>\<open>bootstrap_ci\<close> returns the pair \<open>(0.0, 0.0)\<close>,
  whatever \<^verbatim>\<open>n_bootstrap\<close> and \<^verbatim>\<open>confidence\<close> are; it returns normally (no error) and
  draws nothing from the generator.
\<close>

theorem C6_short_data_sentinel:
  "length data < 2 \<Longrightarrow> bootstrap_ci g data n_bootstrap confidence = (Inr (0, 0), g)"
  by (simp add: bootstrap_ci_def)

theorem C6_short_data_sentinel_witness:
  "length [5 :: real] < 2
   \<and> bootstrap_ci \<lparr>draws = (\<lambda>k. k), pos = 0\<rparr> [5] (- 3) 7
        = (Inr (0, 0), \<lparr>draws = (\<lambda>k. k), pos = 0\<rparr>)
   \<and> bootstrap_ci \<lparr>draws = (\<lambda>k. k), pos = 0\<rparr> [] 1000 (95 / 100)
        = (Inr (0, 0), \<lparr>draws = (\<lambda>k. k), pos = 0\<rparr>)"
  using C6_short_data_sentinel [of "[5]" "\<lparr>draws = (\<lambda>k. k), pos = 0\<rparr>" "- 3" 7]
    C6_short_data_sentinel [of "[]" "\<lparr>draws = (\<lambda>k. k), pos = 0\<rparr>" 1000 "95 / 100"]
  by simp




section \<open>Claims about the fallback mode and its flag\<close>

text \<open>
  C1 (what the code does). When no valid run directory supplies a usable stage series
  and \<^verbatim>\<open>main\<close> reaches the summary generator, the results are those of the final-window
  fallback, and yet the flag \<^verbatim>\<open>is_curriculum_aware\<close> passed to the generator is true:
  every fallback entry is a dictionary of six keys, so the test
  \<^verbatim>\<open>isinstance(data, dict) and len(data) > 1\<close> holds of it. The summary is then headed as a
  per-stage analysis. The claim, that the flag is false on the fallback path, fails on
  every such input.
\<close>

theorem C1_fallback_flagged_curriculum_aware:
  assumes "all_stage_ranges fs (valid_dirs fs run_dirs) = []"
    and "main fs run_dirs stage_window g = (Inr (Summary res flag), g')"
  shows "flag
     \<and> analyze_final_performance_only fs (valid_dirs fs run_dirs) stage_window metrics g = (Inr res, g')
     \<and> summary_mode_line flag = ''Performance metrics analyzed per curriculum stage''"
proof -
  let ?valid = "valid_dirs fs run_dirs"
  have a: "analyze_curriculum_aware fs ?valid stage_window g =
        analyze_final_performance_only fs ?valid stage_window metrics g"
    using assms(1) by (simp add: analyze_curriculum_aware_def)
  from main_summary [OF assms(2)]
  have fin: "analyze_final_performance_only fs ?valid stage_window metrics g = (Inr res, g')"
    "res \<noteq> []" "flag = is_curriculum_aware res"
    unfolding a by simp_all
  have "final_metrics fs ?valid stage_window metrics [] g = (Inr res, g')"
    using fin(1) by (simp only: analyze_final_performance_only_def)
  then have "\<forall>d \<in> snd ` set res. \<exists>r. d = Flat r"
    by (rule final_metrics_flat) simp
  then have "is_curriculum_aware res" using fin(2) by (intro all_flat_aware)
  then show ?thesis using fin by (simp add: summary_mode_line_def)
qed

theorem C1_fallback_flagged_witness:
  "all_stage_ranges (\<lambda>p. if p = ''run1'' then Some [(''Drone__Success.csv'', ([0], [1 / 2]))] else None) (valid_dirs (\<lambda>p. if p = ''run1'' then Some [(''Drone__Success.csv'', ([0], [1 / 2]))] else None) [''run1'']) = []
   \<and> main (\<lambda>p. if p = ''run1'' then Some [(''Drone__Success.csv'', ([0], [1 / 2]))] else None) [''run1''] 50 \<lparr>draws = (\<lambda>k. k), pos = 0\<rparr> =
       (Inr (Summary
          [(''Success Rate'',
            Flat \<lparr> fin_mean = 1 / 2, fin_std = 0, fin_ci_lower = 0, fin_ci_upper = 0,
                   fin_format = ''percentage'', fin_n_runs = 1 \<rparr>)]
          True), \<lparr>draws = (\<lambda>k. k), pos = 0\<rparr>)
   \<and> summary_mode_line True = ''Performance metrics analyzed per curriculum stage''"
proof -
  let ?fs = "(\<lambda>p. if p = ''run1'' then Some [(''Drone__Success.csv'', ([0], [1 / 2]))] else None)"
  let ?g = "\<lparr>draws = (\<lambda>k. k), pos = 0\<rparr>"
  have h1: "all_stage_ranges ?fs (valid_dirs ?fs [''run1'']) = []"
    by (simp add: valid_dirs_def csv_exists_def)
  have h2: "main ?fs [''run1''] 50 ?g =
       (Inr (Summary
          [(''Success Rate'',
            Flat \<lparr> fin_mean = 1 / 2, fin_std = 0, fin_ci_lower = 0, fin_ci_upper = 0,
                   fin_format = ''percentage'', fin_n_runs = 1 \<rparr>)]
          True), ?g)"
    by (simp add: main_def valid_dirs_def analyze_curriculum_aware_def csv_exists_def
        analyze_final_performance_only_def metrics_def extend_final_values_def
        load_csv_data_def bootstrap_ci_def np_mean_def np_std_def is_curriculum_aware_def
        Let_def)
  show ?thesis
    using C1_fallback_flagged_curriculum_aware [OF h1 h2] h1 h2 by simp
qed

section \<open>Claims about metrics without data\<close>

text \<open>
  C2 (what the code does). Take a metric of the table for which no run directory has a
  value (its file is missing, or loads to nothing). Both analyses return normally. The
  final-window paths, \<^verbatim>\<open>analyze_runs\<close> and the fallback of \<^verbatim>\<open>analyze_curriculum_aware\<close>,
  have no entry for the metric's display name, as the claim says: they store an entry
  under \<^verbatim>\<open>if all_final_values:\<close> only. The stage-aware path of
  \<^verbatim>\<open>analyze_curriculum_aware\<close> misses that guard: it executes
  \<^verbatim>\<open>results[metric_name] = {}\<close> for every metric, so the name is present and maps to the
  empty stage dictionary. For a run directory that holds only the stage signal the
  results are then five empty entries, the test \<^verbatim>\<open>if not results\<close> of \<^verbatim>\<open>main\<close> does not
  stop, and the summary generator is called with the flag false.
\<close>

theorem C2_no_data_metric:
  assumes "(metric_key, metric_name, fmt) \<in> set metrics"
    and "\<forall>run_dir \<in> set run_dirs. snd (load_csv_data fs run_dir (metric_key @ ''.csv'')) = []"
  shows "(\<exists>res g'. analyze_curriculum_aware fs run_dirs stage_window g = (Inr res, g')
            \<and> map_of res metric_name =
                (if all_stage_ranges fs run_dirs = [] then None else Some (Staged [])))
       \<and> (\<exists>res g'. analyze_runs fs run_dirs final_win g = (Inr res, g')
            \<and> map_of res metric_name = None)"
proof -
  have hyp: "\<forall>m \<in> set metrics. fst (snd m) = metric_name \<longrightarrow>
           (\<forall>run_dir \<in> set run_dirs. snd (load_csv_data fs run_dir (fst m @ ''.csv'')) = [])"
    using assms(2) metrics_key_of_name [OF assms(1)] by simp
  have named: "metric_name \<in> (fst \<circ> snd) ` set metrics"
    using assms(1) by force
  have aware: "\<exists>res g'. analyze_curriculum_aware fs run_dirs stage_window g = (Inr res, g')
            \<and> map_of res metric_name =
                (if all_stage_ranges fs run_dirs = [] then None else Some (Staged []))"
  proof (cases "all_stage_ranges fs run_dirs")
    case Nil
    have a: "analyze_curriculum_aware fs run_dirs stage_window g =
               final_metrics fs run_dirs stage_window metrics [] g"
      by (simp only: analyze_curriculum_aware_def Nil list.case analyze_final_performance_only_def)
    obtain out g1 where f: "final_metrics fs run_dirs stage_window metrics [] g = (Inr out, g1)"
      using final_metrics_ok by blast
    have "map_of out metric_name = None"
      by (rule final_metrics_absent [OF f hyp]) simp
    then show ?thesis using a f Nil by simp
  next
    case (Cons ranges rest)
    have a: "analyze_curriculum_aware fs run_dirs stage_window g =
               staged_metrics fs run_dirs ranges stage_window metrics [] g"
      by (simp only: analyze_curriculum_aware_def Cons list.case)
    obtain out g1 where
      f: "staged_metrics fs run_dirs ranges stage_window metrics [] g = (Inr out, g1)"
      using staged_metrics_ok by blast
    have "map_of out metric_name = Some (Staged [])"
      using staged_metrics_lookup [OF f hyp] named by simp
    then show ?thesis using a f Cons by simp
  qed
  have runs: "\<exists>res g'. analyze_runs fs run_dirs final_win g = (Inr res, g')
            \<and> map_of res metric_name = None"
  proof -
    obtain out g1 where f: "runs_metrics fs run_dirs final_win metrics [] g = (Inr out, g1)"
      using runs_metrics_ok by blast
    have "map_of out metric_name = None"
      by (rule runs_metrics_absent [OF f hyp]) simp
    then show ?thesis using f by (simp add: analyze_runs_def)
  qed
  show ?thesis using aware runs by (rule conjI)
qed

theorem C2_no_data_metric_witness:
  "(''Drone__Collisions'', ''Collision Rate'', ''percentage'') \<in> set metrics
   \<and> snd (load_csv_data (\<lambda>p. if p = ''a'' then Some [(''Stage__Current.csv'', ([0, 1], [0, 0]))]
          else if p = ''b'' then Some [(''Drone__Success.csv'', ([0, 1], [1 / 4, 3 / 4]))]
          else None) ''a'' ''Drone__Collisions.csv'') = []
   \<and> snd (load_csv_data (\<lambda>p. if p = ''a'' then Some [(''Stage__Current.csv'', ([0, 1], [0, 0]))]
          else if p = ''b'' then Some [(''Drone__Success.csv'', ([0, 1], [1 / 4, 3 / 4]))]
          else None) ''b'' ''Drone__Collisions.csv'') = []
   \<and> all_stage_ranges (\<lambda>p. if p = ''a'' then Some [(''Stage__Current.csv'', ([0, 1], [0, 0]))]
          else if p = ''b'' then Some [(''Drone__Success.csv'', ([0, 1], [1 / 4, 3 / 4]))]
          else None) [''a'', ''b''] \<noteq> []
   \<and> (\<exists>res g'. analyze_curriculum_aware (\<lambda>p. if p = ''a'' then Some [(''Stage__Current.csv'', ([0, 1], [0, 0]))]
          else if p = ''b'' then Some [(''Drone__Success.csv'', ([0, 1], [1 / 4, 3 / 4]))]
          else None) [''a'', ''b''] 50 \<lparr>draws = (\<lambda>k. k), pos = 0\<rparr> = (Inr res, g')
         \<and> map_of res ''Collision Rate'' = Some (Staged []))
   \<and> all_stage_ranges (\<lambda>p. if p = ''run1'' then Some [(''Drone__Success.csv'', ([0], [1 / 2]))] else None) [''run1''] = []
   \<and> (\<exists>res g'. analyze_curriculum_aware (\<lambda>p. if p = ''run1'' then Some [(''Drone__Success.csv'', ([0], [1 / 2]))] else None) [''run1''] 50 \<lparr>draws = (\<lambda>k. k), pos = 0\<rparr> = (Inr res, g')
         \<and> map_of res ''Collision Rate'' = None)
   \<and> (\<exists>res g'. analyze_runs (\<lambda>p. if p = ''run1'' then Some [(''Drone__Success.csv'', ([0], [1 / 2]))] else None) [''run1''] 100 \<lparr>draws = (\<lambda>k. k), pos = 0\<rparr> = (Inr res, g')
         \<and> map_of res ''Collision Rate'' = None)
   \<and> snd (load_csv_data (\<lambda>p. if p = ''run1'' then Some [(''Stage__Current.csv'', ([0, 1], [0, 0]))] else None) ''run1'' ''Drone__Collisions.csv'') = []
   \<and> analyze_curriculum_aware (\<lambda>p. if p = ''run1'' then Some [(''Stage__Current.csv'', ([0, 1], [0, 0]))] else None)
         [''run1''] 50 \<lparr>draws = (\<lambda>k. k), pos = 0\<rparr>
       = (Inr [(''Success Rate'', Staged []), (''Collision Rate'', Staged []),
               (''Cumulative Reward'', Staged []), (''Episode Length'', Staged []),
               (''Min Distance to Goal'', Staged [])],
          \<lparr>draws = (\<lambda>k. k), pos = 0\<rparr>)
   \<and> main (\<lambda>p. if p = ''run1'' then Some [(''Stage__Current.csv'', ([0, 1], [0, 0]))] else None)
         [''run1''] 50 \<lparr>draws = (\<lambda>k. k), pos = 0\<rparr>
       = (Inr (Summary
              [(''Success Rate'', Staged []), (''Collision Rate'', Staged []),
               (''Cumulative Reward'', Staged []), (''Episode Length'', Staged []),
               (''Min Distance to Goal'', Staged [])]
              False),
          \<lparr>draws = (\<lambda>k. k), pos = 0\<rparr>)"
proof -
  let ?fs3 = "(\<lambda>p. if p = ''run1'' then Some [(''Stage__Current.csv'', ([0, 1], [0, 0]))] else None)"
  have n3: "\<forall>run_dir \<in> set [''run1''].
              snd (load_csv_data ?fs3 run_dir (''Drone__Collisions'' @ ''.csv'')) = []"
    by (simp add: load_csv_data_def)
  have a3: "analyze_curriculum_aware ?fs3 [''run1''] 50 \<lparr>draws = (\<lambda>k. k), pos = 0\<rparr>
       = (Inr [(''Success Rate'', Staged []), (''Collision Rate'', Staged []),
               (''Cumulative Reward'', Staged []), (''Episode Length'', Staged []),
               (''Min Distance to Goal'', Staged [])],
          \<lparr>draws = (\<lambda>k. k), pos = 0\<rparr>)"
    by (simp add: analyze_curriculum_aware_def metrics_def collect_run_def csv_exists_def
        load_csv_data_def Let_def)
  have m3: "main ?fs3 [''run1''] 50 \<lparr>draws = (\<lambda>k. k), pos = 0\<rparr>
       = (Inr (Summary
              [(''Success Rate'', Staged []), (''Collision Rate'', Staged []),
               (''Cumulative Reward'', Staged []), (''Episode Length'', Staged []),
               (''Min Distance to Goal'', Staged [])]
              False),
          \<lparr>draws = (\<lambda>k. k), pos = 0\<rparr>)"
    by (simp add: main_def valid_dirs_def analyze_curriculum_aware_def metrics_def
        collect_run_def csv_exists_def load_csv_data_def is_curriculum_aware_def Let_def)
  let ?fs2 = "(\<lambda>p. if p = ''a'' then Some [(''Stage__Current.csv'', ([0, 1], [0, 0]))]
          else if p = ''b'' then Some [(''Drone__Success.csv'', ([0, 1], [1 / 4, 3 / 4]))]
          else None)"
  let ?fs1 = "(\<lambda>p. if p = ''run1'' then Some [(''Drone__Success.csv'', ([0], [1 / 2]))] else None)"
  let ?g = "\<lparr>draws = (\<lambda>k. k), pos = 0\<rparr>"
  have m: "(''Drone__Collisions'', ''Collision Rate'', ''percentage'') \<in> set metrics"
    by (simp add: metrics_def)
  have n2: "\<forall>run_dir \<in> set [''a'', ''b''].
              snd (load_csv_data ?fs2 run_dir (''Drone__Collisions'' @ ''.csv'')) = []"
    by (simp add: load_csv_data_def)
  have n1: "\<forall>run_dir \<in> set [''run1''].
              snd (load_csv_data ?fs1 run_dir (''Drone__Collisions'' @ ''.csv'')) = []"
    by (simp add: load_csv_data_def)
  have s2: "all_stage_ranges ?fs2 [''a'', ''b''] \<noteq> []"
    by (simp add: csv_exists_def load_csv_data_def)
  have s1: "all_stage_ranges ?fs1 [''run1''] = []"
    by (simp add: csv_exists_def)
  show ?thesis
    using C2_no_data_metric [OF m n2, of 50 ?g 100] C2_no_data_metric [OF m n1, of 50 ?g 100]
      C2_no_data_metric [OF m n3, of 50 ?g 100] m n2 n1 n3 s2 s1 a3 m3
    by simp
qed

section \<open>Claims about a stage with a single contributing run\<close>

text \<open>
  C3 (what the code does at a failing input). Two run directories: the first holds only
  the stage signal, the second only the success series, with the two in-stage values
  0.25 and 0.75. Exactly one run contributes a converged mean to stage 0, and the
  combined std is 0; but the interval is not bootstrapped over that run's two in-stage
  values: the single-run branch reads the series of \<^verbatim>\<open>run_dirs[0]\<close>, finds none, and
  stores the pair \<open>(0.0, 0.0)\<close>, drawing nothing from the generator, where a bootstrap
  over the two values would have consumed 2000 draws.
\<close>

theorem C3_single_contributor_not_first_run:
  "analyze_curriculum_aware (\<lambda>p. if p = ''a'' then Some [(''Stage__Current.csv'', ([0, 1], [0, 0]))]
          else if p = ''b'' then Some [(''Drone__Success.csv'', ([0, 1], [1 / 4, 3 / 4]))]
          else None) [''a'', ''b''] 50 g =
     (Inr [(''Success Rate'',
            Staged [(0, \<lparr> res_mean = 1 / 2, res_std = 0, res_ci_lower = 0, res_ci_upper = 0,
                          res_format = ''percentage'', res_n_runs = 1,
                          res_step_range = (0, 1) \<rparr>)]),
           (''Collision Rate'', Staged []), (''Cumulative Reward'', Staged []),
           (''Episode Length'', Staged []), (''Min Distance to Goal'', Staged [])], g)
   \<and> final_window (in_stage_values [0, 1] [1 / 4, 3 / 4] 0 1) 50 = [1 / 4, 3 / 4]
   \<and> pos (snd (bootstrap_ci g [1 / 4, 3 / 4] 1000 (95 / 100))) = pos g + 2000"
proof (intro conjI)
  show "analyze_curriculum_aware (\<lambda>p. if p = ''a'' then Some [(''Stage__Current.csv'', ([0, 1], [0, 0]))]
          else if p = ''b'' then Some [(''Drone__Success.csv'', ([0, 1], [1 / 4, 3 / 4]))]
          else None) [''a'', ''b''] 50 g =
     (Inr [(''Success Rate'',
            Staged [(0, \<lparr> res_mean = 1 / 2, res_std = 0, res_ci_lower = 0, res_ci_upper = 0,
                          res_format = ''percentage'', res_n_runs = 1,
                          res_step_range = (0, 1) \<rparr>)]),
           (''Collision Rate'', Staged []), (''Cumulative Reward'', Staged []),
           (''Episode Length'', Staged []), (''Min Distance to Goal'', Staged [])], g)"
    by (simp add: analyze_curriculum_aware_def metrics_def collect_run_def csv_exists_def
        load_csv_data_def get_stage_performance_def perf_step_def in_stage_values_def
        final_window_def append_mean_def single_run_ci_def np_mean_def Let_def
        find_stage_transitions_def scan_init_def scan_step_def py_int_def)
  show "final_window (in_stage_values [0, 1] [1 / 4, 3 / 4] 0 1) 50 = [1 / 4, 3 / 4]"
    by (simp add: in_stage_values_def final_window_def)
  show "pos (snd (bootstrap_ci g [1 / 4, 3 / 4] 1000 (95 / 100))) = pos g + 2000"
    by (simp add: bootstrap_ci_rng)
qed

section \<open>Claims about value formatting\<close>

text \<open>
  C9. For every value \<open>v\<close>, \<^verbatim>\<open>format_value(v, 'percentage')\<close> is the rendering of the
  product \<^verbatim>\<open>v*100\<close> to exactly one decimal place, followed by \<^verbatim>\<open>%\<close>, and
  \<^verbatim>\<open>format_value(v, 'float')\<close> is the rendering of \<open>v\<close> to no decimal place (an integer)
  when \<open>|v| > 100\<close> and to exactly two decimal places otherwise. A value has one rendering
  to \<open>d\<close> places only, so these say which characters are printed. The three examples hold
  for the floats that the literals 0.873, 153.2 and 0.42 denote (any value within relative
  distance \<open>2\<^sup>-\<^sup>5\<^sup>3\<close> of the decimal) and for any product \<^verbatim>\<open>v*100\<close> rounded with that
  relative error, the exact product included.
\<close>

theorem C9_format_value:
  "(\<exists>s. format_value fmul v ''percentage'' = s @ ''%'' \<and> is_rendering 1 (fmul v 100) s)
   \<and> (\<bar>v\<bar> > 100 \<longrightarrow> is_rendering 0 v (format_value fmul v ''float''))
   \<and> (\<not> \<bar>v\<bar> > 100 \<longrightarrow> is_rendering 2 v (format_value fmul v ''float''))
   \<and> (is_rendering d x t \<and> is_rendering d x u \<longrightarrow> t = u)
   \<and> (\<bar>a - 873 / 1000\<bar> \<le> (873 / 1000) / 2 ^ 53
        \<and> \<bar>fmul a 100 - a * 100\<bar> \<le> \<bar>a * 100\<bar> / 2 ^ 53 \<longrightarrow>
        format_value fmul a ''percentage'' = ''87.3%'')
   \<and> (\<bar>b - 1532 / 10\<bar> \<le> (1532 / 10) / 2 ^ 53 \<longrightarrow>
        format_value fmul b ''float'' = ''153'')
   \<and> (\<bar>c - 42 / 100\<bar> \<le> (42 / 100) / 2 ^ 53 \<longrightarrow>
        format_value fmul c ''float'' = ''0.42'')"
proof (intro conjI)
  have "format_value fmul v ''percentage'' = py_format_f 1 (fmul v 100) @ ''%''"
    by (simp add: format_value_def)
  then show "\<exists>s. format_value fmul v ''percentage'' = s @ ''%'' \<and> is_rendering 1 (fmul v 100) s"
    using py_format_f_is_rendering [of 1 "fmul v 100"] by blast
  show "\<bar>v\<bar> > 100 \<longrightarrow> is_rendering 0 v (format_value fmul v ''float'')"
    using py_format_f_is_rendering [of 0 v] by (simp add: format_value_def)
  show "\<not> \<bar>v\<bar> > 100 \<longrightarrow> is_rendering 2 v (format_value fmul v ''float'')"
    using py_format_f_is_rendering [of 2 v] by (simp add: format_value_def)
  show "is_rendering d x t \<and> is_rendering d x u \<longrightarrow> t = u"
    using is_rendering_unique [of d x t u] by blast
  show "\<bar>a - 873 / 1000\<bar> \<le> (873 / 1000) / 2 ^ 53
        \<and> \<bar>fmul a 100 - a * 100\<bar> \<le> \<bar>a * 100\<bar> / 2 ^ 53 \<longrightarrow>
        format_value fmul a ''percentage'' = ''87.3%''"
    using format_value_example_percentage [of a fmul] by blast
  show "\<bar>b - 1532 / 10\<bar> \<le> (1532 / 10) / 2 ^ 53 \<longrightarrow>
        format_value fmul b ''float'' = ''153''"
    using format_value_example_large [of b fmul] by blast
  show "\<bar>c - 42 / 100\<bar> \<le> (42 / 100) / 2 ^ 53 \<longrightarrow>
        format_value fmul c ''float'' = ''0.42''"
    using format_value_example_small [of c fmul] by blast
qed

theorem C9_format_value_witness:
  "format_value (*) (873 / 1000) ''percentage'' = ''87.3%''
   \<and> format_value (*) (1532 / 10) ''float'' = ''153''
   \<and> format_value (*) (42 / 100) ''float'' = ''0.42''
   \<and> format_value (*) (5 / 100) ''float'' = ''0.05''
   \<and> is_rendering 2 (5 / 100) ''0.05''
   \<and> \<not> is_rendering 2 (5 / 100) ''0.00''
   \<and> format_value (*) (- 1 / 8) ''float'' = ''-0.12''
   \<and> format_value (*) 100 ''float'' = ''100.00''"
proof -
  have r: "format_value (*) (5 / 100) ''float'' = ''0.05''"
    "format_value (*) (- 1 / 8) ''float'' = ''-0.12''"
    "format_value (*) 100 ''float'' = ''100.00''"
    by (simp_all add: format_value_def py_format_f_def round_half_even_def show_nat.simps
        digit_char_def pad_left_def Let_def)
  note ex = C9_format_value [of "(*)" 0 0 0 "[]" "[]" "873 / 1000" "1532 / 10" "42 / 100"]
  note five = C9_format_value [of "(*)" "5 / 100" 2 "5 / 100" "''0.05''" "''0.00''" 0 0 0]
  have e: "format_value (*) (873 / 1000) ''percentage'' = ''87.3%''"
    "format_value (*) (1532 / 10) ''float'' = ''153''"
    "format_value (*) (42 / 100) ''float'' = ''0.42''"
    using ex by simp_all
  have yes: "is_rendering 2 (5 / 100) ''0.05''"
    using five r(1) by simp
  have no: "\<not> is_rendering 2 (5 / 100) ''0.00''"
  proof
    assume "is_rendering 2 (5 / 100) ''0.00''"
    then have "''0.05'' = ''0.00''" using five yes by blast
    then show False by simp
  qed
  show ?thesis using e r yes no by simp
qed

end
